theory Spec2Isabelle
  imports Main "HOL-Library.Word" "HOL-Library.List_Lexorder" "HOL-Library.Sublist"
    "HOL-Library.Multiset"
begin

section \<open>JavaScript strings\<close>

text \<open>
  A JavaScript string is a sequence of 16-bit code units. Comparison of strings (the
  default order of \<^verbatim>\<open>Array.prototype.sort\<close>) is the lexicographic order of the code
  units, which is the order of lists over \<^typ>\<open>16 word\<close>.
\<close>

type_synonym jschar = "16 word"
type_synonym jsstring = "jschar list"

definition jc :: "char \<Rightarrow> jschar" where
  "jc c = of_nat (of_char c)"

definition js :: "string \<Rightarrow> jsstring" where
  "js s = map jc s"

text \<open>
  The values a property of a parsed \<^verbatim>\<open>package.json\<close> holds in this program: nothing
  (\<^verbatim>\<open>undefined\<close>), a string, or the structured author object with its \<^verbatim>\<open>name\<close>,
  \<^verbatim>\<open>email\<close> and \<^verbatim>\<open>url\<close> properties.
\<close>

datatype js_value =
  Undefined
  | Str jsstring
  | Obj (obj_name: js_value) (obj_email: js_value) (obj_url: js_value)

datatype js_error = URIError | TypeError

text \<open>\<^verbatim>\<open>ToString\<close>: a plain object prints as \<^verbatim>\<open>[object Object]\<close>.\<close>

fun ToString :: "js_value \<Rightarrow> jsstring" where
  "ToString Undefined = js ''undefined''"
| "ToString (Str s) = s"
| "ToString (Obj n e u) = js ''[object Object]''"

text \<open>\<^verbatim>\<open>ToBoolean\<close>: \<^verbatim>\<open>undefined\<close> and the empty string are falsy, objects are truthy.\<close>

fun ToBoolean :: "js_value \<Rightarrow> bool" where
  "ToBoolean Undefined = False"
| "ToBoolean (Str s) = (s \<noteq> [])"
| "ToBoolean (Obj n e u) = True"

text \<open>
  \<^verbatim>\<open>v.name\<close> and \<^verbatim>\<open>v.email\<close>: reading a property of \<^verbatim>\<open>undefined\<close> raises
  \<^verbatim>\<open>TypeError\<close>, and a string has neither property.
\<close>

fun get_name :: "js_value \<Rightarrow> js_error + js_value" where
  "get_name Undefined = Inl TypeError"
| "get_name (Str s) = Inr Undefined"
| "get_name (Obj n e u) = Inr n"

fun get_email :: "js_value \<Rightarrow> js_error + js_value" where
  "get_email Undefined = Inl TypeError"
| "get_email (Str s) = Inr Undefined"
| "get_email (Obj n e u) = Inr e"

section \<open>Built-ins: encodeURIComponent, String.prototype.replace, Array.prototype.join\<close>

text \<open>
  The characters \<^verbatim>\<open>encodeURIComponent\<close> leaves alone: letters, digits and
  \<^verbatim>\<open>- _ . ! ~ * ' ( )\<close>.
\<close>

definition uriUnescaped :: "jschar \<Rightarrow> bool" where
  "uriUnescaped c \<longleftrightarrow>
     (jc CHR ''A'' \<le> c \<and> c \<le> jc CHR ''Z'') \<or> (jc CHR ''a'' \<le> c \<and> c \<le> jc CHR ''z'') \<or>
     (jc CHR ''0'' \<le> c \<and> c \<le> jc CHR ''9'') \<or>
     c \<in> set (js ''-_.!~*'') \<or> c = 0x27 \<or> c \<in> set (js ''()'')"

definition hexDigit :: "nat \<Rightarrow> jschar" where
  "hexDigit d = (js ''0123456789ABCDEF'') ! d"

definition pctOctet :: "nat \<Rightarrow> jsstring" where
  "pctOctet b = [jc CHR ''%'', hexDigit (b div 16), hexDigit (b mod 16)]"

text \<open>The UTF-8 octets of a code point below \<open>0x110000\<close>.\<close>

definition utf8Octets :: "nat \<Rightarrow> nat list" where
  "utf8Octets cp =
     (if cp < 0x80 then [cp]
      else if cp < 0x800 then [0xC0 + cp div 64, 0x80 + cp mod 64]
      else if cp < 0x10000 then [0xE0 + cp div 4096, 0x80 + cp div 64 mod 64, 0x80 + cp mod 64]
      else [0xF0 + cp div 262144, 0x80 + cp div 4096 mod 64, 0x80 + cp div 64 mod 64,
            0x80 + cp mod 64])"

definition pctEncode :: "nat \<Rightarrow> jsstring" where
  "pctEncode cp = concat (map pctOctet (utf8Octets cp))"

definition andThen :: "jsstring \<Rightarrow> js_error + jsstring \<Rightarrow> js_error + jsstring" where
  "andThen p r = (case r of Inl e \<Rightarrow> Inl e | Inr t \<Rightarrow> Inr (p @ t))"

text \<open>
  ECMAScript's abstract operation \<^verbatim>\<open>Encode(string, unescapedSet)\<close> walks the code
  units: a character of the unescaped set is copied; any other code point (a surrogate
  pair is one code point) is written as the percent-encoded octets of its UTF-8 form; an
  unpaired surrogate raises \<^verbatim>\<open>URIError\<close>.
\<close>

fun Encode :: "(jschar \<Rightarrow> bool) \<Rightarrow> jsstring \<Rightarrow> js_error + jsstring" where
  "Encode unescaped [] = Inr []"
| "Encode unescaped (c # cs) =
     (if unescaped c then andThen [c] (Encode unescaped cs)
      else if c < 0xD800 \<or> 0xDFFF < c then
        andThen (pctEncode (unat c)) (Encode unescaped cs)
      else if 0xDC00 \<le> c then Inl URIError
      else (case cs of
              [] \<Rightarrow> Inl URIError
            | d # ds \<Rightarrow>
                if 0xDC00 \<le> d \<and> d \<le> 0xDFFF then
                  andThen (pctEncode (0x10000 + (unat c - 0xD800) * 0x400 + (unat d - 0xDC00)))
                    (Encode unescaped ds)
                else Inl URIError))"

definition encodeURIComponent :: "jsstring \<Rightarrow> js_error + jsstring" where
  "encodeURIComponent s = Encode uriUnescaped s"

text \<open>
  \<^verbatim>\<open>s.replace(pat, rep)\<close> with a string pattern replaces the first occurrence of
  \<open>pat\<close> only. (The replacement used by the program, \<^verbatim>\<open>'/'\<close>, has no \<^verbatim>\<open>$\<close>
  pattern, so it is inserted as it is.)
\<close>

fun js_replace :: "jsstring \<Rightarrow> jsstring \<Rightarrow> jsstring \<Rightarrow> jsstring" where
  "js_replace pat rep [] = (if pat = [] then rep else [])"
| "js_replace pat rep (x # xs) =
     (if prefix pat (x # xs) then rep @ drop (length pat) (x # xs)
      else x # js_replace pat rep xs)"

fun js_join :: "jsstring list \<Rightarrow> jsstring \<Rightarrow> jsstring" where
  "js_join [] sep = []"
| "js_join [x] sep = x"
| "js_join (x # y # ys) sep = x @ sep @ js_join (y # ys) sep"

section \<open>Package descriptors\<close>

text \<open>
  The object parsed from a \<^verbatim>\<open>package.json\<close>, by the properties the program reads.
  A property that is absent reads as \<^verbatim>\<open>undefined\<close>; \<^verbatim>\<open>name\<close>, \<^verbatim>\<open>version\<close>,
  \<^verbatim>\<open>description\<close> and \<^verbatim>\<open>license\<close> are strings when present, and \<^verbatim>\<open>author\<close>
  is a shorthand string or a structured object.
\<close>

record npm_package =
  name :: js_value
  version :: js_value
  author :: js_value
  description :: js_value
  license :: js_value

section \<open>The package URL\<close>

text \<open>
  \<^verbatim>\<open>'pkg:npm/' + encodeURIComponent(npmPackage.name).replace('%2F', '/')
      + '@' + encodeURIComponent(npmPackage.version)\<close>
\<close>

definition purl :: "js_value \<Rightarrow> js_value \<Rightarrow> js_error + jsstring" where
  "purl n v =
     (case encodeURIComponent (ToString n) of
        Inl e \<Rightarrow> Inl e
      | Inr en \<Rightarrow>
          (case encodeURIComponent (ToString v) of
             Inl e \<Rightarrow> Inl e
           | Inr ev \<Rightarrow>
               Inr (js ''pkg:npm/'' @ js_replace (js ''%2F'') (js ''/'') en @ js ''@'' @ ev)))"

section \<open>Regular expressions\<close>

text \<open>
  The two regular expressions of the program use anchors, single characters, character
  classes under \<^verbatim>\<open>*\<close>, \<^verbatim>\<open>*?\<close> and \<^verbatim>\<open>+\<close>, optional groups and capturing groups.
  They are matched as ECMAScript matches them: by backtracking, with a continuation for
  the rest of the pattern. Without the \<^verbatim>\<open>u\<close> flag a class matches one code unit.
\<close>

datatype cls = Dot | Space | OneOf "(jschar \<times> jschar) list" | NoneOf "(jschar \<times> jschar) list"

definition inRanges :: "(jschar \<times> jschar) list \<Rightarrow> jschar \<Rightarrow> bool" where
  "inRanges rs c = list_ex (\<lambda>(lo, hi). lo \<le> c \<and> c \<le> hi) rs"

text \<open>Line terminators: LF, CR, LS, PS.\<close>

definition lineTerminator :: "jschar \<Rightarrow> bool" where
  "lineTerminator c \<longleftrightarrow> c = 0x0A \<or> c = 0x0D \<or> c = 0x2028 \<or> c = 0x2029"

text \<open>\<^verbatim>\<open>\s\<close>: the white space characters and the line terminators.\<close>

definition whiteSpace :: "jschar \<Rightarrow> bool" where
  "whiteSpace c \<longleftrightarrow>
     (0x09 \<le> c \<and> c \<le> 0x0D) \<or> c = 0x20 \<or> c = 0xA0 \<or> c = 0x1680 \<or>
     (0x2000 \<le> c \<and> c \<le> 0x200A) \<or> c = 0x2028 \<or> c = 0x2029 \<or> c = 0x202F \<or>
     c = 0x205F \<or> c = 0x3000 \<or> c = 0xFEFF"

fun cls_mem :: "cls \<Rightarrow> jschar \<Rightarrow> bool" where
  "cls_mem Dot c = (\<not> lineTerminator c)"
| "cls_mem Space c = whiteSpace c"
| "cls_mem (OneOf rs) c = inRanges rs c"
| "cls_mem (NoneOf rs) c = (\<not> inRanges rs c)"

datatype regex =
  Bol | Eol | Chr jschar | Star cls | StarLazy cls | Plus cls
  | Cat regex regex | Opt regex | Group nat regex

text \<open>
  A matcher state: the input still to read, the index reached, and the captures
  (\<^verbatim>\<open>undefined\<close> for a group that did not take part).
\<close>

type_synonym mstate = "jsstring \<times> nat \<times> (nat \<Rightarrow> js_value)"

text \<open>Greedy \<^verbatim>\<open>*\<close>: one more character first, the rest of the pattern after.\<close>

fun greedy :: "cls \<Rightarrow> (mstate \<Rightarrow> mstate option) \<Rightarrow> mstate \<Rightarrow> mstate option" where
  "greedy c k ([], i, cs) = k ([], i, cs)"
| "greedy c k (x # xs, i, cs) =
     (if cls_mem c x then
        (case greedy c k (xs, Suc i, cs) of
           Some r \<Rightarrow> Some r
         | None \<Rightarrow> k (x # xs, i, cs))
      else k (x # xs, i, cs))"

text \<open>Lazy \<^verbatim>\<open>*?\<close>: the rest of the pattern first, one more character after.\<close>

fun lazy :: "cls \<Rightarrow> (mstate \<Rightarrow> mstate option) \<Rightarrow> mstate \<Rightarrow> mstate option" where
  "lazy c k ([], i, cs) = k ([], i, cs)"
| "lazy c k (x # xs, i, cs) =
     (case k (x # xs, i, cs) of
        Some r \<Rightarrow> Some r
      | None \<Rightarrow> if cls_mem c x then lazy c k (xs, Suc i, cs) else None)"

text \<open>
  \<open>rmatch r k st\<close> matches \<open>r\<close> at \<open>st\<close> and then the continuation \<open>k\<close>, in
  the order of ECMAScript's backtracking. (An optional group whose body matched the empty
  string would be rejected by ECMAScript; the optional groups here always read a
  character.)
\<close>

primrec rmatch :: "regex \<Rightarrow> (mstate \<Rightarrow> mstate option) \<Rightarrow> mstate \<Rightarrow> mstate option" where
  "rmatch Bol k = (\<lambda>(s, i, cs). if i = 0 then k (s, i, cs) else None)"
| "rmatch Eol k = (\<lambda>(s, i, cs). if s = [] then k (s, i, cs) else None)"
| "rmatch (Chr c) k =
     (\<lambda>(s, i, cs). case s of [] \<Rightarrow> None | x # xs \<Rightarrow> if x = c then k (xs, Suc i, cs) else None)"
| "rmatch (Star c) k = greedy c k"
| "rmatch (StarLazy c) k = lazy c k"
| "rmatch (Plus c) k =
     (\<lambda>(s, i, cs). case s of
        [] \<Rightarrow> None
      | x # xs \<Rightarrow> if cls_mem c x then greedy c k (xs, Suc i, cs) else None)"
| "rmatch (Cat a b) k = rmatch a (rmatch b k)"
| "rmatch (Opt a) k = (\<lambda>st. case rmatch a k st of Some r \<Rightarrow> Some r | None \<Rightarrow> k st)"
| "rmatch (Group n a) k =
     (\<lambda>(s, i, cs). rmatch a (\<lambda>(s', i', cs'). k (s', i', cs'(n := Str (take (i' - i) s)))) (s, i, cs))"

text \<open>
  \<^verbatim>\<open>RegExp.prototype.exec\<close> of a regular expression without flags: the match is tried
  at index 0, then at each later index; the result holds the whole match at 0 and the
  groups after it.
\<close>

fun scan :: "regex \<Rightarrow> jsstring \<Rightarrow> nat \<Rightarrow> (nat \<Rightarrow> js_value) option" where
  "scan r [] i = map_option (\<lambda>(s, j, cs). cs) (rmatch (Group 0 r) Some ([], i, \<lambda>n. Undefined))"
| "scan r (x # xs) i =
     (case rmatch (Group 0 r) Some (x # xs, i, \<lambda>n. Undefined) of
        Some (s, j, cs) \<Rightarrow> Some cs
      | None \<Rightarrow> scan r xs (Suc i))"

definition regexp_exec :: "regex \<Rightarrow> js_value \<Rightarrow> (nat \<Rightarrow> js_value) option" where
  "regexp_exec r v = scan r (ToString v) 0"

fun cats :: "regex list \<Rightarrow> regex" where
  "cats [r] = r"
| "cats (r # rs) = Cat r (cats rs)"
| "cats [] = Opt Eol"

text \<open>
  \<^verbatim>\<open>/^(.*?)\s*(?:<([^>]*)>)?\s*(?:\(([^)]*)\))?$/\<close>, with names for the two optional
  groups \<^verbatim>\<open><([^>]*)>\<close> and \<^verbatim>\<open>\(([^)]*)\)\<close> and for what follows the first
  capturing group.
\<close>

definition email_re :: regex where
  "email_re =
     cats [Chr (jc CHR ''<''), Group 2 (Star (NoneOf [(jc CHR ''>'', jc CHR ''>'')])),
           Chr (jc CHR ''>'')]"

definition url_re :: regex where
  "url_re =
     cats [Chr (jc CHR ''(''), Group 3 (Star (NoneOf [(jc CHR '')'', jc CHR '')'')])),
           Chr (jc CHR '')'')]"

definition tail_re :: regex where
  "tail_re = cats [Star Space, Opt email_re, Star Space, Opt url_re, Eol]"

definition author_re :: regex where
  "author_re = cats [Bol, Group 1 (StarLazy Dot), tail_re]"

text \<open>\<^verbatim>\<open>/^[A-Za-z0-9+.]+/\<close>\<close>

definition license_re :: regex where
  "license_re =
     cats [Bol, Plus (OneOf [(jc CHR ''A'', jc CHR ''Z''), (jc CHR ''a'', jc CHR ''z''),
                             (jc CHR ''0'', jc CHR ''9''), (jc CHR ''+'', jc CHR ''+''),
                             (jc CHR ''.'', jc CHR ''.'')])]"

section \<open>DependencyListPlugin\<close>

subsection \<open>findPackage\<close>

text \<open>
  \<^verbatim>\<open>finder(file)\<close> (the library find-package-json) is an iterator over the parsed
  \<^verbatim>\<open>package.json\<close> files found from the file's directory upwards, nearest first. It is
  modelled by the list of the objects it still has to yield: \<^verbatim>\<open>next()\<close> yields the
  head, and \<^verbatim>\<open>{done: true, value: undefined}\<close> once the list is empty.
\<close>

type_synonym module_finder = "npm_package list"

definition finder_next :: "module_finder \<Rightarrow> (bool \<times> npm_package option) \<times> module_finder" where
  "finder_next it = (case it of [] \<Rightarrow> ((True, None), []) | p # ps \<Rightarrow> ((False, Some p), ps))"

text \<open>\<^verbatim>\<open>value?.name\<close>, as a condition.\<close>

fun named :: "npm_package option \<Rightarrow> bool" where
  "named None = False"
| "named (Some p) = ToBoolean (name p)"

text \<open>
  \<^verbatim>\<open>while (!currentModule.done && !currentModule.value?.name)
      currentModule = moduleFinder.next();
  return currentModule.value;\<close>
\<close>

function search :: "(bool \<times> npm_package option) \<Rightarrow> module_finder \<Rightarrow> npm_package option" where
  "search (d, v) it =
     (if \<not> d \<and> \<not> named v then (case finder_next it of (cur, it') \<Rightarrow> search cur it')
      else v)"
  by pat_completeness auto
termination
  by (relation "measure (\<lambda>((d, v), it). 2 * length it + (if d then 0 else 1))")
    (auto simp: finder_next_def split: list.splits)

definition findPackage :: "module_finder \<Rightarrow> npm_package option" where
  "findPackage moduleFinder = (case finder_next moduleFinder of (cur, it) \<Rightarrow> search cur it)"

subsection \<open>toSBOMAuthors and toSBOMLicenses\<close>

text \<open>An entry of \<^verbatim>\<open>authors\<close>: \<^verbatim>\<open>name\<close> is always set, \<^verbatim>\<open>email\<close> only sometimes.\<close>

record sbom_author =
  author_name :: js_value
  author_email :: "js_value option"

definition toSBOMAuthors :: "js_value \<Rightarrow> js_error + sbom_author list" where
  "toSBOMAuthors npmAuthor =
     (case get_name npmAuthor of
        Inl e \<Rightarrow> Inl e
      | Inr n \<Rightarrow>
          if ToBoolean n then
            (case get_email npmAuthor of
               Inl e \<Rightarrow> Inl e
             | Inr em \<Rightarrow>
                 Inr [\<lparr>author_name = n,
                       author_email = (if ToBoolean em then Some em else None)\<rparr>])
          else
            (case regexp_exec author_re npmAuthor of
               Some values \<Rightarrow>
                 Inr [\<lparr>author_name = values 1,
                       author_email = (if ToBoolean (values 2) then Some (values 2) else None)\<rparr>]
             | None \<Rightarrow> Inr [\<lparr>author_name = npmAuthor, author_email = None\<rparr>]))"

text \<open>\<^verbatim>\<open>{license: {id: ...}}\<close> or \<^verbatim>\<open>{expression: ...}\<close>.\<close>

datatype sbom_license = LicenseId js_value | Expression js_value

definition toSBOMLicenses :: "js_value \<Rightarrow> sbom_license list" where
  "toSBOMLicenses npmLicense =
     (case regexp_exec license_re npmLicense of
        Some values \<Rightarrow> [LicenseId npmLicense]
      | None \<Rightarrow> [Expression npmLicense])"

subsection \<open>toSBOM\<close>

record component =
  comp_type :: jsstring
  bom_ref :: jsstring
  comp_name :: js_value
  comp_version :: js_value
  comp_purl :: jsstring
  authors :: "sbom_author list option"
  comp_description :: "js_value option"
  licenses :: "sbom_license list option"

record dependency =
  ref :: jsstring

record sbom =
  bomFormat :: jsstring
  specVersion :: jsstring
  serialNumber :: jsstring
  sbom_version :: int
  metadata_timestamp :: jsstring
  components :: "component list"
  dependencies :: "dependency list"

text \<open>
  The body of the \<^verbatim>\<open>forEach\<close> callback: one component and one dependency are pushed.
\<close>

definition addPackage :: "sbom \<Rightarrow> npm_package \<Rightarrow> js_error + sbom" where
  "addPackage doc npmPackage =
     (case purl (name npmPackage) (version npmPackage) of
        Inl e \<Rightarrow> Inl e
      | Inr p \<Rightarrow>
          (case (if ToBoolean (author npmPackage)
                 then map_sum id Some (toSBOMAuthors (author npmPackage))
                 else Inr None) of
             Inl e \<Rightarrow> Inl e
           | Inr au \<Rightarrow>
               Inr (doc\<lparr>components := components doc @
                      [\<lparr>comp_type = js ''library'', bom_ref = p,
                        comp_name = name npmPackage, comp_version = version npmPackage,
                        comp_purl = p, authors = au,
                        comp_description =
                          (if ToBoolean (description npmPackage)
                           then Some (description npmPackage) else None),
                        licenses =
                          (if ToBoolean (license npmPackage)
                           then Some (toSBOMLicenses (license npmPackage)) else None)\<rparr>],
                    dependencies := dependencies doc @ [\<lparr>ref = p\<rparr>]\<rparr>)))"

fun forEach :: "sbom \<Rightarrow> npm_package list \<Rightarrow> js_error + sbom" where
  "forEach doc [] = Inr doc"
| "forEach doc (p # ps) =
     (case addPackage doc p of Inl e \<Rightarrow> Inl e | Inr doc' \<Rightarrow> forEach doc' ps)"

text \<open>
  The serial number's UUID and the time stamp come from outside (\<^verbatim>\<open>uuidv4()\<close>,
  \<^verbatim>\<open>new Date().toISOString()\<close>) and are parameters.
\<close>

definition toSBOM :: "jsstring \<Rightarrow> jsstring \<Rightarrow> npm_package list \<Rightarrow> js_error + sbom" where
  "toSBOM uuid now npmPackages =
     forEach \<lparr>bomFormat = js ''CycloneDX'', specVersion = js ''1.6'',
              serialNumber = js ''urn:uuid:'' @ uuid, sbom_version = 1,
              metadata_timestamp = now, components = [], dependencies = []\<rparr> npmPackages"

subsection \<open>apply: the hook run when the compilation is done\<close>

text \<open>
  \<^verbatim>\<open>moduleCoords\<close> is a plain object used as a map from strings. Its keys all contain
  a colon, so none is an array index and \<^verbatim>\<open>Object.keys\<close> and \<^verbatim>\<open>Object.values\<close> list
  the properties in the order of their creation: the object is a list of pairs, an
  assignment to a key it has replaces the value where it stands, and an assignment to a
  new key appends.
\<close>

type_synonym registry = "(jsstring \<times> npm_package) list"

fun assign :: "registry \<Rightarrow> jsstring \<Rightarrow> npm_package \<Rightarrow> registry" where
  "assign [] k v = [(k, v)]"
| "assign ((k', v') # kvs) k v =
     (if k' = k then (k', v) # kvs else (k', v') # assign kvs k v)"

definition object_keys :: "registry \<Rightarrow> jsstring list" where
  "object_keys obj = map fst obj"

definition object_values :: "registry \<Rightarrow> npm_package list" where
  "object_values obj = map snd obj"

text \<open>\<^verbatim>\<open>npmPackage.name + ':' + npmPackage.version\<close>\<close>

definition coords :: "npm_package \<Rightarrow> jsstring" where
  "coords npmPackage = ToString (name npmPackage) @ js '':'' @ ToString (version npmPackage)"

text \<open>
  The callback of \<^verbatim>\<open>fileDependencies.forEach\<close>; \<open>finder\<close> gives each file the
  iterator that find-package-json builds for it. The messages logged do not change the
  state and are left out.
\<close>

definition visit :: "(jsstring \<Rightarrow> module_finder) \<Rightarrow> registry \<Rightarrow> jsstring \<Rightarrow> registry" where
  "visit finder moduleCoords file =
     (let npmPackage = findPackage (finder file) in
      if named npmPackage then
        (case npmPackage of
           Some p \<Rightarrow> assign moduleCoords (coords p) p
         | None \<Rightarrow> moduleCoords)
      else moduleCoords)"

definition collect :: "(jsstring \<Rightarrow> module_finder) \<Rightarrow> jsstring list \<Rightarrow> registry" where
  "collect finder files = foldl (visit finder) [] files"

text \<open>
  \<^verbatim>\<open>Array.prototype.sort\<close> without a comparator orders strings by their code units.
\<close>

definition sortedCoords :: "registry \<Rightarrow> jsstring list" where
  "sortedCoords moduleCoords = sort (object_keys moduleCoords)"

text \<open>The text written to the dependency list: \<^verbatim>\<open>sortedCoords.join('\n') + '\n'\<close>.\<close>

definition manifest :: "registry \<Rightarrow> jsstring" where
  "manifest moduleCoords = js_join (sortedCoords moduleCoords) [0x0A] @ [0x0A]"

text \<open>The two documents the hook writes: the dependency list and the SBOM.\<close>

definition on_done ::
  "(jsstring \<Rightarrow> module_finder) \<Rightarrow> jsstring \<Rightarrow> jsstring \<Rightarrow> jsstring list \<Rightarrow>
     jsstring \<times> (js_error + sbom)" where
  "on_done finder uuid now fileDependencies =
     (let moduleCoords = collect finder fileDependencies in
      (manifest moduleCoords, toSBOM uuid now (object_values moduleCoords)))"

section \<open>The notions of the specification\<close>

text \<open>
  The specification describes the package URL with a percent-encoding that preserves the
  slash: ECMAScript's \<^verbatim>\<open>Encode\<close> with the slash added to the unescaped characters of
  \<^verbatim>\<open>encodeURIComponent\<close>.
\<close>

definition spec_percentEncode_preserving_slash :: "jsstring \<Rightarrow> js_error + jsstring" where
  "spec_percentEncode_preserving_slash s = Encode (\<lambda>c. uriUnescaped c \<or> c = jc CHR ''/'') s"

text \<open>
  The package URL as the specification writes it:
  \<^verbatim>\<open>"pkg:npm/" + percentEncode(name, preserving "/") + "@" + percentEncode(version)\<close>.
\<close>

definition spec_purl :: "jsstring \<Rightarrow> jsstring \<Rightarrow> js_error + jsstring" where
  "spec_purl n v =
     (case spec_percentEncode_preserving_slash n of
        Inl e \<Rightarrow> Inl e
      | Inr en \<Rightarrow>
          (case encodeURIComponent v of
             Inl e \<Rightarrow> Inl e
           | Inr ev \<Rightarrow> Inr (js ''pkg:npm/'' @ en @ js ''@'' @ ev)))"

text \<open>
  The characters of the specification's single-token identifier: letters, digits,
  \<^verbatim>\<open>+\<close> and \<^verbatim>\<open>.\<close>.
\<close>

definition idChar :: "jschar \<Rightarrow> bool" where
  "idChar c \<longleftrightarrow>
     (jc CHR ''A'' \<le> c \<and> c \<le> jc CHR ''Z'') \<or> (jc CHR ''a'' \<le> c \<and> c \<le> jc CHR ''z'') \<or>
     (jc CHR ''0'' \<le> c \<and> c \<le> jc CHR ''9'') \<or> c = jc CHR ''+'' \<or> c = jc CHR ''.''"

text \<open>
  The shorthand author string of the specification, \<^verbatim>\<open>name <email> (url)\<close>: the email
  between angle brackets and the URL between parentheses, each optional.
\<close>

definition email_part :: "jsstring option \<Rightarrow> jsstring" where
  "email_part eo = (case eo of None \<Rightarrow> [] | Some e \<Rightarrow> jc CHR ''<'' # e @ [jc CHR ''>''])"

definition url_part :: "jsstring option \<Rightarrow> jsstring" where
  "url_part uo = (case uo of None \<Rightarrow> [] | Some u \<Rightarrow> jc CHR ''('' # u @ [jc CHR '')''])"

text \<open>
  The lines of a text, as the specification counts the lines of the dependency list: each
  line ends at a newline, and text after the last newline is a line too.
\<close>

fun text_lines :: "jsstring \<Rightarrow> jsstring list" where
  "text_lines [] = []"
| "text_lines (c # cs) =
     (if c = 0x0A then [] # text_lines cs
      else (case text_lines cs of [] \<Rightarrow> [[c]] | l # ls \<Rightarrow> (c # l) # ls))"

section \<open>Auxiliary definitions\<close>

text \<open>The captures after an optional group that did or did not take part.\<close>

definition with_group :: "nat \<Rightarrow> jsstring option \<Rightarrow> (nat \<Rightarrow> js_value) \<Rightarrow> (nat \<Rightarrow> js_value)" where
  "with_group n g cs = (case g of None \<Rightarrow> cs | Some x \<Rightarrow> cs(n := Str x))"

text \<open>\<^verbatim>\<open>.replace('%2F', '/')\<close> on the outcome of an encoding.\<close>

definition replaced :: "js_error + jsstring \<Rightarrow> js_error + jsstring" where
  "replaced r =
     (case r of Inl e \<Rightarrow> Inl e | Inr t \<Rightarrow> Inr (js_replace (js ''%2F'') (js ''/'') t))"

text \<open>
  Example data: descriptors with a name, a version and a description, and a file system
  in which \<^verbatim>\<open>a.js\<close> lies below a descriptor without a name, then package \<^verbatim>\<open>p\<close>, then
  the application; \<^verbatim>\<open>b.js\<close> lies in a second copy of \<^verbatim>\<open>p\<close> at the same version whose
  descriptor differs; \<^verbatim>\<open>c.js\<close> lies in package \<^verbatim>\<open>a\<close>; every other file has no
  descriptor above it.
\<close>

definition pkg :: "string \<Rightarrow> string \<Rightarrow> string \<Rightarrow> npm_package" where
  "pkg n v d = \<lparr>name = Str (js n), version = Str (js v), author = Undefined,
     description = Str (js d), license = Undefined\<rparr>"

definition example_finder :: "jsstring \<Rightarrow> module_finder" where
  "example_finder f =
     (if f = js ''a.js'' then
        [pkg '''' ''0'' ''marker'', pkg ''p'' ''1'' ''first'', pkg ''app'' ''0'' '''']
      else if f = js ''b.js'' then [pkg ''p'' ''1'' ''second'']
      else if f = js ''c.js'' then [pkg ''a'' ''2'' '''']
      else [])"

text \<open>
  A second file system: \<^verbatim>\<open>x.js\<close> lies in package \<^verbatim>\<open>a\<close> whose version string holds
  a newline followed by \<^verbatim>\<open>b:2\<close>, and \<^verbatim>\<open>y.js\<close> lies in package \<^verbatim>\<open>b\<close> at
  version \<^verbatim>\<open>2\<close>.
\<close>

definition newline_finder :: "jsstring \<Rightarrow> module_finder" where
  "newline_finder f =
     (if f = js ''x.js'' then
        [\<lparr>name = Str (js ''a''), version = Str (js ''1'' @ [0x0A] @ js ''b:2''),
          author = Undefined, description = Undefined, license = Undefined\<rparr>]
      else if f = js ''y.js'' then [pkg ''b'' ''2'' '''']
      else [])"

section \<open>Properties of findPackage\<close>

lemma findPackage_Nil: "findPackage [] = None"
  by (simp add: findPackage_def finder_next_def)

lemma findPackage_Cons:
  "findPackage (p # ps) = (if ToBoolean (name p) then Some p else findPackage ps)"
  by (simp add: findPackage_def finder_next_def)

lemma findPackage_None_iff:
  "findPackage it = None \<longleftrightarrow> (\<forall>p \<in> set it. \<not> ToBoolean (name p))"
  by (induction it) (simp_all add: findPackage_Nil findPackage_Cons)

lemma findPackage_Some_iff:
  "findPackage it = Some p \<longleftrightarrow>
     (\<exists>pre post. it = pre @ p # post \<and> (\<forall>q \<in> set pre. \<not> ToBoolean (name q)) \<and>
        ToBoolean (name p))"
proof (induction it)
  case Nil
  then show ?case by (simp add: findPackage_Nil)
next
  case (Cons a it)
  show ?case
  proof (cases "ToBoolean (name a)")
    case True
    have "(\<exists>pre post. a # it = pre @ p # post \<and> (\<forall>q \<in> set pre. \<not> ToBoolean (name q)) \<and>
        ToBoolean (name p)) \<longleftrightarrow> a = p"
    proof
      assume "\<exists>pre post. a # it = pre @ p # post \<and> (\<forall>q \<in> set pre. \<not> ToBoolean (name q)) \<and>
        ToBoolean (name p)"
      then obtain pre post where e: "a # it = pre @ p # post"
        and u: "\<forall>q \<in> set pre. \<not> ToBoolean (name q)" by blast
      show "a = p"
      proof (cases pre)
        case Nil
        with e show ?thesis by simp
      next
        case (Cons b pre')
        with e have "b = a" by simp
        with Cons u True show ?thesis by simp
      qed
    next
      assume "a = p"
      with True have "a # it = [] @ p # it \<and> (\<forall>q \<in> set []. \<not> ToBoolean (name q)) \<and>
        ToBoolean (name p)" by simp
      then show "\<exists>pre post. a # it = pre @ p # post \<and> (\<forall>q \<in> set pre. \<not> ToBoolean (name q)) \<and>
        ToBoolean (name p)" by blast
    qed
    with True show ?thesis by (simp add: findPackage_Cons)
  next
    case False
    have "(\<exists>pre post. a # it = pre @ p # post \<and> (\<forall>q \<in> set pre. \<not> ToBoolean (name q)) \<and>
        ToBoolean (name p)) \<longleftrightarrow> (\<exists>pre post. it = pre @ p # post \<and> (\<forall>q \<in> set pre. \<not> ToBoolean (name q)) \<and>
        ToBoolean (name p))" (is "?L \<longleftrightarrow> ?R")
    proof
      assume ?L
      then obtain pre post where e: "a # it = pre @ p # post"
        and u: "\<forall>q \<in> set pre. \<not> ToBoolean (name q)" and t: "ToBoolean (name p)" by blast
      show ?R
      proof (cases pre)
        case Nil
        with e have "a = p" by simp
        with False t show ?thesis by simp
      next
        case (Cons b pre')
        with e have "it = pre' @ p # post" by simp
        moreover from Cons u have "\<forall>q \<in> set pre'. \<not> ToBoolean (name q)" by simp
        ultimately show ?thesis using t by blast
      qed
    next
      assume ?R
      then obtain pre post where e: "it = pre @ p # post"
        and u: "\<forall>q \<in> set pre. \<not> ToBoolean (name q)" and t: "ToBoolean (name p)" by blast
      from e have "a # it = (a # pre) @ p # post" by simp
      moreover from u False have "\<forall>q \<in> set (a # pre). \<not> ToBoolean (name q)" by simp
      ultimately show ?L using t by blast
    qed
    with False Cons.IH show ?thesis by (simp add: findPackage_Cons)
  qed
qed

lemma findPackage_named: "findPackage it = Some p \<Longrightarrow> ToBoolean (name p)"
  by (auto simp: findPackage_Some_iff)

text \<open>
  Claim C7. For every file, \<open>findPackage\<close> returns the first descriptor, in the order
  from the nearest directory upwards, that declares a non-empty (truthy) name: the
  descriptors before it have none and are skipped. When no descriptor declares a name the
  result is none. The function has no failing branch: an unresolved file is the value
  \<open>None\<close>, not an error.
\<close>

theorem findPackage_nearest_named:
  "(findPackage it = None \<longleftrightarrow> (\<forall>p \<in> set it. \<not> ToBoolean (name p))) \<and>
   (findPackage it = Some p \<longleftrightarrow>
     (\<exists>pre post. it = pre @ p # post \<and> (\<forall>q \<in> set pre. \<not> ToBoolean (name q)) \<and>
        ToBoolean (name p)))"
  using findPackage_None_iff [of it] findPackage_Some_iff [of it p] by (rule conjI)

theorem findPackage_nearest_named_witness:
  "findPackage [pkg '''' ''0'' ''marker'', pkg ''p'' ''1'' ''first'', pkg ''app'' ''0'' ''''] =
     Some (pkg ''p'' ''1'' ''first'') \<and>
   findPackage [pkg '''' ''0'' ''marker''] = None"
proof -
  let ?m = "pkg '''' ''0'' ''marker''" and ?p = "pkg ''p'' ''1'' ''first''"
    and ?a = "pkg ''app'' ''0'' ''''"
  have a: "[?m, ?p, ?a] = [?m] @ ?p # [?a] \<and> (\<forall>q \<in> set [?m]. \<not> ToBoolean (name q)) \<and>
      ToBoolean (name ?p)"
    by (simp add: pkg_def js_def)
  have b: "\<forall>p \<in> set [?m]. \<not> ToBoolean (name p)"
    by (simp add: pkg_def js_def)
  have e: "\<exists>pre post. [?m, ?p, ?a] = pre @ ?p # post \<and>
      (\<forall>q \<in> set pre. \<not> ToBoolean (name q)) \<and> ToBoolean (name ?p)"
    by (rule exI [of _ "[?m]"], rule exI [of _ "[?a]"], rule a)
  have "findPackage [?m, ?p, ?a] = Some ?p"
    using findPackage_nearest_named [of "[?m, ?p, ?a]" ?p, THEN conjunct2] e by (rule iffD2)
  moreover have "findPackage [?m] = None"
    using findPackage_nearest_named [of "[?m]" ?p, THEN conjunct1] b by (rule iffD2)
  ultimately show ?thesis by (rule conjI)
qed

section \<open>Properties of the registry and the dependency list\<close>

lemma js_join_terminated:
  "xs \<noteq> [] \<Longrightarrow> js_join xs sep @ sep = concat (map (\<lambda>k. k @ sep) xs)"
  by (induction xs sep rule: js_join.induct) simp_all

lemma object_keys_assign_old:
  "k \<in> set (object_keys reg) \<Longrightarrow> object_keys (assign reg k v) = object_keys reg"
  by (induction reg) (force simp: object_keys_def)+

lemma object_keys_assign_new:
  "k \<notin> set (object_keys reg) \<Longrightarrow> object_keys (assign reg k v) = object_keys reg @ [k]"
  by (induction reg) (force simp: object_keys_def)+

lemma object_keys_assign:
  "object_keys (assign reg k v) = (if k \<in> set (object_keys reg) then object_keys reg else object_keys reg @ [k])"
  by (simp add: object_keys_assign_old object_keys_assign_new)

lemma map_of_assign: "map_of (assign reg k v) = (map_of reg)(k \<mapsto> v)"
  by (induction reg) (auto simp: fun_eq_iff)

lemma assign_same: "map_of reg k = Some v \<Longrightarrow> assign reg k v = reg"
  by (induction reg) (auto split: if_splits)

lemma distinct_assign:
  "distinct (object_keys reg) \<Longrightarrow> distinct (object_keys (assign reg k v))"
  by (simp add: object_keys_assign)

lemma assign_split:
  "k \<in> set (object_keys reg) \<Longrightarrow>
   \<exists>pre old post. reg = pre @ (k, old) # post \<and> k \<notin> set (object_keys pre) \<and>
      assign reg k v = pre @ (k, v) # post"
proof (induction reg)
  case Nil
  then show ?case by (simp add: object_keys_def)
next
  case (Cons a reg)
  obtain k' v' where a: "a = (k', v')" by (cases a)
  show ?case
  proof (cases "k' = k")
    case True
    then have "a # reg = [] @ (k, v') # reg \<and> k \<notin> set (object_keys []) \<and>
      assign (a # reg) k v = [] @ (k, v) # reg"
      by (simp add: a object_keys_def)
    then show ?thesis by blast
  next
    case False
    with Cons.prems a have "k \<in> set (object_keys reg)" by (simp add: object_keys_def)
    from Cons.IH [OF this] obtain pre old post where
      r: "reg = pre @ (k, old) # post" "k \<notin> set (object_keys pre)"
      "assign reg k v = pre @ (k, v) # post" by blast
    have "a # reg = (a # pre) @ (k, old) # post \<and> k \<notin> set (object_keys (a # pre)) \<and>
      assign (a # reg) k v = (a # pre) @ (k, v) # post"
      using r False a by (simp add: object_keys_def)
    then show ?thesis by blast
  qed
qed

lemma visit_cases:
  "visit finder reg f = (case findPackage (finder f) of None \<Rightarrow> reg | Some p \<Rightarrow> assign reg (coords p) p)"
  by (auto simp: visit_def Let_def dest: findPackage_named split: option.splits)

lemma visit_distinct:
  "distinct (object_keys reg) \<Longrightarrow> distinct (object_keys (visit finder reg file))"
  by (simp add: visit_cases distinct_assign split: option.splits)

lemma foldl_visit_keys:
  "distinct (object_keys reg) \<Longrightarrow>
   distinct (object_keys (foldl (visit finder) reg files)) \<and>
   set (object_keys (foldl (visit finder) reg files)) =
     set (object_keys reg) \<union> {coords p |p f. f \<in> set files \<and> findPackage (finder f) = Some p}"
proof (induction files arbitrary: reg)
  case Nil
  then show ?case by simp
next
  case (Cons f files)
  have d: "distinct (object_keys (visit finder reg f))"
    using Cons.prems by (simp add: visit_cases distinct_assign split: option.splits)
  have s: "set (object_keys (visit finder reg f)) =
     set (object_keys reg) \<union> {coords p |p. findPackage (finder f) = Some p}"
    by (auto simp: visit_cases object_keys_assign split: option.splits)
  from Cons.IH [OF d] s show ?case by auto
qed

lemma collect_distinct: "distinct (object_keys (collect finder files))"
  using foldl_visit_keys [of "[]" finder files] by (simp add: collect_def object_keys_def)

lemma collect_keys:
  "set (object_keys (collect finder files)) =
     {coords p |p f. f \<in> set files \<and> findPackage (finder f) = Some p}"
  using foldl_visit_keys [of "[]" finder files] by (simp add: collect_def object_keys_def)

lemma sortedCoords_eq:
  assumes "set files = set files'"
  shows "sortedCoords (collect finder files) = sortedCoords (collect finder files')"
proof -
  have "set (object_keys (collect finder files)) = set (object_keys (collect finder files'))"
    using assms by (simp add: collect_keys)
  then show ?thesis
    unfolding sortedCoords_def
    by (intro sorted_distinct_set_unique) (simp_all add: collect_distinct)
qed

lemma count_sortedCoords:
  assumes "f \<in> set files" "findPackage (finder f) = Some p"
  shows "count_list (sortedCoords (collect finder files)) (coords p) = 1"
proof -
  have "coords p \<in> set (object_keys (collect finder files))"
    using assms by (auto simp: collect_keys)
  then have "count (mset (object_keys (collect finder files))) (coords p) = 1"
    using collect_distinct [of finder files] by (simp add: distinct_count_atmost_1)
  then have "count (mset (sortedCoords (collect finder files))) (coords p) = 1"
    by (simp add: sortedCoords_def)
  then show ?thesis by (simp only: count_mset)
qed

lemma collect_unresolved:
  "\<forall>f \<in> set files. findPackage (finder f) = None \<Longrightarrow> foldl (visit finder) reg files = reg"
  by (induction files arbitrary: reg) (simp_all add: visit_cases)

text \<open>The example files resolve as described.\<close>

lemma example_a: "findPackage (example_finder (js ''a.js'')) = Some (pkg ''p'' ''1'' ''first'')"
  by code_simp

lemma example_b: "findPackage (example_finder (js ''b.js'')) = Some (pkg ''p'' ''1'' ''second'')"
  by code_simp

lemma example_c: "findPackage (example_finder (js ''c.js'')) = Some (pkg ''a'' ''2'' '''')"
  by code_simp

lemma example_d: "findPackage (example_finder (js ''d.js'')) = None"
  by code_simp

lemma example_visit_a:
  "visit example_finder [] (js ''a.js'') = [(js ''p:1'', pkg ''p'' ''1'' ''first'')]"
  by code_simp

lemma example_coords: "coords (pkg ''p'' ''1'' ''second'') = js ''p:1''"
  by code_simp

text \<open>Every key of the registry contains a colon, so none is an array index.\<close>

lemma coords_colon: "jc CHR '':'' \<in> set (coords p)"
  by (simp add: coords_def js_def)

text \<open>
  Claim C2, as amended. When a file resolves to a package whose key is already in the
  registry, the entry keeps its place and the sequence of keys is unchanged, but the value
  stored under the key is replaced by the newly resolved descriptor (the last occurrence
  wins); the registry is unchanged when that descriptor equals the stored one. The keys
  of the registry stay distinct, and the registry collected from any list of files has
  distinct keys.
\<close>

theorem visit_existing_key:
  assumes "findPackage (finder file) = Some p" and "coords p \<in> set (object_keys reg)"
  shows "(\<exists>pre old post. reg = pre @ (coords p, old) # post \<and>
            coords p \<notin> set (object_keys pre) \<and>
            visit finder reg file = pre @ (coords p, p) # post) \<and>
         object_keys (visit finder reg file) = object_keys reg \<and>
         (map_of reg (coords p) = Some p \<longrightarrow> visit finder reg file = reg) \<and>
         (distinct (object_keys reg) \<longrightarrow> distinct (object_keys (visit finder reg file))) \<and>
         distinct (object_keys (collect finder files))"
proof -
  have v: "visit finder reg file = assign reg (coords p) p"
    using assms(1) by (simp add: visit_cases)
  show ?thesis
    unfolding v
    using assign_split [OF assms(2), of p] object_keys_assign_old [OF assms(2), of p]
      assign_same [of reg "coords p" p] distinct_assign [of reg "coords p" p]
      collect_distinct [of finder files]
    by blast
qed

theorem visit_existing_key_witness:
  "visit example_finder [(js ''p:1'', pkg ''p'' ''1'' ''first'')] (js ''b.js'') =
     [(js ''p:1'', pkg ''p'' ''1'' ''second'')] \<and>
   object_keys (visit example_finder [(js ''p:1'', pkg ''p'' ''1'' ''first'')] (js ''b.js'')) =
     object_keys [(js ''p:1'', pkg ''p'' ''1'' ''first'')]"
proof -
  let ?reg = "[(js ''p:1'', pkg ''p'' ''1'' ''first'')]"
  have k: "coords (pkg ''p'' ''1'' ''second'') \<in> set (object_keys ?reg)"
    by (simp add: example_coords object_keys_def)
  from visit_existing_key [of example_finder "js ''b.js''" "pkg ''p'' ''1'' ''second''" ?reg "[]"]
    example_b k
  obtain pre old post where
    r: "?reg = pre @ (coords (pkg ''p'' ''1'' ''second''), old) # post"
    "visit example_finder ?reg (js ''b.js'') = pre @ (coords (pkg ''p'' ''1'' ''second''), pkg ''p'' ''1'' ''second'') # post"
    and o: "object_keys (visit example_finder ?reg (js ''b.js'')) = object_keys ?reg"
    by blast
  from r(1) have "pre = [] \<and> post = []"
    by (cases pre) simp_all
  with r(2) o show ?thesis by (simp add: example_coords)
qed

text \<open>
  The claim as stated fails: \<^verbatim>\<open>a.js\<close> and \<^verbatim>\<open>b.js\<close> resolve to two descriptors with
  the key \<^verbatim>\<open>p:1\<close> and different descriptions, and after the second file the registry
  holds the second descriptor, not the first.
\<close>

theorem visit_existing_key_counterexample:
  "findPackage (example_finder (js ''b.js'')) = Some (pkg ''p'' ''1'' ''second'') \<and>
   coords (pkg ''p'' ''1'' ''second'') \<in> set (object_keys (visit example_finder [] (js ''a.js''))) \<and>
   map_of (visit example_finder [] (js ''a.js'')) (js ''p:1'') = Some (pkg ''p'' ''1'' ''first'') \<and>
   map_of (visit example_finder (visit example_finder [] (js ''a.js'')) (js ''b.js'')) (js ''p:1'') =
     Some (pkg ''p'' ''1'' ''second'') \<and>
   pkg ''p'' ''1'' ''first'' \<noteq> pkg ''p'' ''1'' ''second''"
  by code_simp

text \<open>The lines of the dependency list are the sorted keys, when no key holds a newline.\<close>

lemma text_lines_line:
  "0x0A \<notin> set k \<Longrightarrow> text_lines (k @ 0x0A # rest) = k # text_lines rest"
  by (induction k) auto

lemma text_lines_concat:
  "\<forall>k \<in> set ks. 0x0A \<notin> set k \<Longrightarrow> text_lines (concat (map (\<lambda>k. k @ [0x0A]) ks)) = ks"
  by (induction ks) (simp_all add: text_lines_line)

lemma manifest_lines:
  assumes "\<forall>k \<in> set (object_keys reg). 0x0A \<notin> set k" and "reg \<noteq> []"
  shows "text_lines (manifest reg) = sortedCoords reg"
proof -
  have "length (sortedCoords reg) = length reg"
    by (simp add: sortedCoords_def object_keys_def)
  with assms(2) have ne: "sortedCoords reg \<noteq> []" by auto
  have "\<forall>k \<in> set (sortedCoords reg). 0x0A \<notin> set k"
    using assms(1) by (simp add: sortedCoords_def)
  then have "text_lines (concat (map (\<lambda>k. k @ [0x0A]) (sortedCoords reg))) = sortedCoords reg"
    by (rule text_lines_concat)
  moreover have "manifest reg = concat (map (\<lambda>k. k @ [0x0A]) (sortedCoords reg))"
    unfolding manifest_def using ne by (rule js_join_terminated)
  ultimately show ?thesis by simp
qed

lemma manifest_line_count:
  assumes "\<forall>g \<in> set files. \<forall>q. findPackage (finder g) = Some q \<longrightarrow> 0x0A \<notin> set (coords q)"
    and "f \<in> set files" and "findPackage (finder f) = Some p"
  shows "text_lines (manifest (collect finder files)) = sortedCoords (collect finder files)"
    and "count_list (text_lines (manifest (collect finder files))) (coords p) = 1"
proof -
  have k: "\<forall>k \<in> set (object_keys (collect finder files)). 0x0A \<notin> set k"
    using assms(1) by (auto simp: collect_keys)
  have "coords p \<in> set (object_keys (collect finder files))"
    using assms(2,3) by (auto simp: collect_keys)
  then have "collect finder files \<noteq> []" by (auto simp: object_keys_def)
  with k show l: "text_lines (manifest (collect finder files)) = sortedCoords (collect finder files)"
    by (rule manifest_lines)
  show "count_list (text_lines (manifest (collect finder files))) (coords p) = 1"
    unfolding l using assms(2,3) by (rule count_sortedCoords)
qed

lemma example_no_newline:
  "\<forall>g \<in> set [js ''a.js'', js ''b.js'', js ''c.js''].
     \<forall>q. findPackage (example_finder g) = Some q \<longrightarrow> 0x0A \<notin> set (coords q)"
proof -
  have "0x0A \<notin> set (coords (pkg ''p'' ''1'' ''first''))"
    "0x0A \<notin> set (coords (pkg ''p'' ''1'' ''second''))"
    "0x0A \<notin> set (coords (pkg ''a'' ''2'' ''''))"
    by (simp_all add: coords_def pkg_def js_def jc_def)
  then show ?thesis by (simp add: example_a example_b example_c)
qed

text \<open>
  Claim C3, as amended. Whatever the list of files, when the key of no resolved package
  holds a newline (no name and no version does), the lines of the text of the dependency
  list are the sorted keys, and a package that some file resolves to has its key
  \<^verbatim>\<open>name:version\<close> on exactly one line of the text, however many files resolve to that
  key; and two lists with the same files, in any order and with any repetitions, give the
  same text. The key of a package with name \<open>n\<close> and version \<open>v\<close> is \<open>n\<close>, a colon
  and \<open>v\<close>.
\<close>

theorem manifest_one_line_per_package:
  "((\<forall>g \<in> set files. \<forall>q. findPackage (finder g) = Some q \<longrightarrow> 0x0A \<notin> set (coords q)) \<and>
    f \<in> set files \<and> findPackage (finder f) = Some p \<longrightarrow>
      text_lines (manifest (collect finder files)) = sortedCoords (collect finder files) \<and>
      count_list (text_lines (manifest (collect finder files))) (coords p) = 1) \<and>
   (set files = set files' \<longrightarrow>
      sortedCoords (collect finder files) = sortedCoords (collect finder files') \<and>
      manifest (collect finder files) = manifest (collect finder files')) \<and>
   (name p = Str n \<and> version p = Str v \<longrightarrow> coords p = n @ js '':'' @ v)"
proof (intro conjI)
  show "(\<forall>g \<in> set files. \<forall>q. findPackage (finder g) = Some q \<longrightarrow> 0x0A \<notin> set (coords q)) \<and>
    f \<in> set files \<and> findPackage (finder f) = Some p \<longrightarrow>
      text_lines (manifest (collect finder files)) = sortedCoords (collect finder files) \<and>
      count_list (text_lines (manifest (collect finder files))) (coords p) = 1"
    using manifest_line_count [of files finder f p] by blast
  show "set files = set files' \<longrightarrow>
      sortedCoords (collect finder files) = sortedCoords (collect finder files') \<and>
      manifest (collect finder files) = manifest (collect finder files')"
    using sortedCoords_eq [of files files' finder] by (simp add: manifest_def)
  show "name p = Str n \<and> version p = Str v \<longrightarrow> coords p = n @ js '':'' @ v"
    by (simp add: coords_def)
qed

theorem manifest_one_line_per_package_witness:
  "text_lines (manifest (collect example_finder [js ''a.js'', js ''b.js'', js ''c.js''])) =
     [js ''a:2'', js ''p:1''] \<and>
   count_list (text_lines (manifest (collect example_finder [js ''a.js'', js ''b.js'', js ''c.js''])))
     (js ''p:1'') = 1 \<and>
   manifest (collect example_finder [js ''a.js'', js ''b.js'', js ''c.js'']) =
     manifest (collect example_finder [js ''c.js'', js ''b.js'', js ''a.js'', js ''b.js''])"
proof -
  let ?fs = "[js ''a.js'', js ''b.js'', js ''c.js'']"
  let ?gs = "[js ''c.js'', js ''b.js'', js ''a.js'', js ''b.js'']"
  note t = manifest_one_line_per_package [of ?fs example_finder "js ''b.js''"
        "pkg ''p'' ''1'' ''second''" ?gs]
  have m: "js ''b.js'' \<in> set ?fs" by simp
  have s: "set ?fs = set ?gs" by auto
  have sc: "sortedCoords (collect example_finder ?fs) = [js ''a:2'', js ''p:1'']"
    by code_simp
  from t example_no_newline m example_b
  have a: "text_lines (manifest (collect example_finder ?fs)) = sortedCoords (collect example_finder ?fs)"
    and c: "count_list (text_lines (manifest (collect example_finder ?fs)))
      (coords (pkg ''p'' ''1'' ''second'')) = 1"
    by blast+
  from t s have e: "manifest (collect example_finder ?fs) = manifest (collect example_finder ?gs)"
    by blast
  from a have "text_lines (manifest (collect example_finder ?fs)) = [js ''a:2'', js ''p:1'']"
    by (simp only: sc)
  moreover from c have "count_list (text_lines (manifest (collect example_finder ?fs))) (js ''p:1'') = 1"
    by (simp only: example_coords)
  ultimately show ?thesis using e by blast
qed

text \<open>
  The claim as stated fails when a version holds a newline: the key of package \<^verbatim>\<open>a\<close>
  ends in a line \<^verbatim>\<open>b:2\<close>, so the text has the line \<^verbatim>\<open>b:2\<close> twice although only
  \<^verbatim>\<open>y.js\<close> resolves to package \<^verbatim>\<open>b\<close> at version \<^verbatim>\<open>2\<close>.
\<close>

theorem manifest_one_line_per_package_counterexample:
  "findPackage (newline_finder (js ''y.js'')) = Some (pkg ''b'' ''2'' '''') \<and>
   coords (pkg ''b'' ''2'' '''') = js ''b:2'' \<and>
   manifest (collect newline_finder [js ''x.js'', js ''y.js'']) =
     js ''a:1'' @ [0x0A] @ js ''b:2'' @ [0x0A] @ js ''b:2'' @ [0x0A] \<and>
   count_list (text_lines (manifest (collect newline_finder [js ''x.js'', js ''y.js''])))
     (js ''b:2'') = 2"
  by code_simp



section \<open>Properties of toSBOM\<close>

lemma toSBOMAuthors_total: "a \<noteq> Undefined \<Longrightarrow> \<exists>x. toSBOMAuthors a = Inr [x]"
  by (cases a) (auto simp: toSBOMAuthors_def split: option.splits)

lemma addPackage_Inr:
  assumes "addPackage doc p = Inr doc'"
  shows "\<exists>c. components doc' = components doc @ [c] \<and>
           dependencies doc' = dependencies doc @ [\<lparr>ref = bom_ref c\<rparr>] \<and>
           comp_name c = name p \<and> comp_version c = version p \<and>
           purl (name p) (version p) = Inr (bom_ref c)"
  using assms by (auto simp: addPackage_def split: sum.splits if_splits)

lemma addPackage_total:
  assumes "purl (name p) (version p) = Inr u"
  shows "\<exists>doc'. addPackage doc p = Inr doc'"
proof (cases "ToBoolean (author p)")
  case True
  then have "author p \<noteq> Undefined" by auto
  then obtain x where "toSBOMAuthors (author p) = Inr [x]"
    using toSBOMAuthors_total by blast
  with assms True show ?thesis by (simp add: addPackage_def)
next
  case False
  with assms show ?thesis by (simp add: addPackage_def)
qed

lemma forEach_Inr:
  "forEach doc ps = Inr doc' \<Longrightarrow>
   \<exists>cs. components doc' = components doc @ cs \<and>
        dependencies doc' = dependencies doc @ map (\<lambda>c. \<lparr>ref = bom_ref c\<rparr>) cs \<and>
        map comp_name cs = map name ps \<and> map comp_version cs = map version ps \<and>
        map (\<lambda>c. Inr (bom_ref c)) cs = map (\<lambda>p. purl (name p) (version p)) ps"
proof (induction ps arbitrary: doc)
  case Nil
  then show ?case by simp
next
  case (Cons p ps)
  from Cons.prems obtain d1 where a: "addPackage doc p = Inr d1" and f: "forEach d1 ps = Inr doc'"
    by (auto split: sum.splits)
  from addPackage_Inr [OF a] obtain c where c: "components d1 = components doc @ [c]"
    "dependencies d1 = dependencies doc @ [\<lparr>ref = bom_ref c\<rparr>]"
    "comp_name c = name p" "comp_version c = version p"
    "purl (name p) (version p) = Inr (bom_ref c)" by blast
  from Cons.IH [OF f] obtain cs where cs: "components doc' = components d1 @ cs"
    "dependencies doc' = dependencies d1 @ map (\<lambda>c. \<lparr>ref = bom_ref c\<rparr>) cs"
    "map comp_name cs = map name ps" "map comp_version cs = map version ps"
    "map (\<lambda>c. Inr (bom_ref c)) cs = map (\<lambda>p. purl (name p) (version p)) ps" by blast
  have "components doc' = components doc @ (c # cs) \<and>
        dependencies doc' = dependencies doc @ map (\<lambda>c. \<lparr>ref = bom_ref c\<rparr>) (c # cs) \<and>
        map comp_name (c # cs) = map name (p # ps) \<and> map comp_version (c # cs) = map version (p # ps) \<and>
        map (\<lambda>c. Inr (bom_ref c)) (c # cs) = map (\<lambda>p. purl (name p) (version p)) (p # ps)"
    using c cs by simp
  then show ?case by blast
qed

lemma forEach_total:
  "\<forall>p \<in> set ps. \<exists>u. purl (name p) (version p) = Inr u \<Longrightarrow> \<exists>doc'. forEach doc ps = Inr doc'"
proof (induction ps arbitrary: doc)
  case Nil
  then show ?case by simp
next
  case (Cons p ps)
  then obtain u where "purl (name p) (version p) = Inr u" by auto
  then obtain d1 where "addPackage doc p = Inr d1" using addPackage_total by blast
  moreover from Cons obtain d2 where "forEach d1 ps = Inr d2" by fastforce
  ultimately show ?case by simp
qed

lemma toSBOM_Inr:
  assumes "toSBOM uuid now pkgs = Inr doc"
  shows "length (components doc) = length (dependencies doc)"
    and "length (components doc) = length pkgs"
    and "i < length pkgs \<Longrightarrow>
         ref (dependencies doc ! i) = bom_ref (components doc ! i) \<and>
         comp_name (components doc ! i) = name (pkgs ! i) \<and>
         comp_version (components doc ! i) = version (pkgs ! i) \<and>
         purl (name (pkgs ! i)) (version (pkgs ! i)) = Inr (bom_ref (components doc ! i))"
proof -
  from assms obtain cs where cs: "components doc = cs"
    "dependencies doc = map (\<lambda>c. \<lparr>ref = bom_ref c\<rparr>) cs"
    "map comp_name cs = map name pkgs" "map comp_version cs = map version pkgs"
    "map (\<lambda>c. Inr (bom_ref c)) cs = map (\<lambda>p. purl (name p) (version p)) pkgs"
    unfolding toSBOM_def by (fastforce dest: forEach_Inr)
  have len: "length cs = length pkgs"
    using cs(3) by (metis length_map)
  show "length (components doc) = length (dependencies doc)"
    by (simp add: cs)
  show "length (components doc) = length pkgs"
    by (simp add: cs len)
  assume i: "i < length pkgs"
  with len have i': "i < length cs" by simp
  have "map comp_name cs ! i = map name pkgs ! i" by (simp only: cs)
  then have n: "comp_name (cs ! i) = name (pkgs ! i)" using i i' by simp
  have "map comp_version cs ! i = map version pkgs ! i" by (simp only: cs)
  then have v: "comp_version (cs ! i) = version (pkgs ! i)" using i i' by simp
  have "map (\<lambda>c. Inr (bom_ref c)) cs ! i = map (\<lambda>p. purl (name p) (version p)) pkgs ! i"
    by (simp only: cs)
  then have u: "purl (name (pkgs ! i)) (version (pkgs ! i)) = Inr (bom_ref (cs ! i))"
    using i i' by simp
  show "ref (dependencies doc ! i) = bom_ref (components doc ! i) \<and>
         comp_name (components doc ! i) = name (pkgs ! i) \<and>
         comp_version (components doc ! i) = version (pkgs ! i) \<and>
         purl (name (pkgs ! i)) (version (pkgs ! i)) = Inr (bom_ref (components doc ! i))"
    using n v u i' by (simp add: cs)
qed

lemma example_purl_p: "purl (name (pkg ''p'' ''1'' ''first'')) (version (pkg ''p'' ''1'' ''first'')) = Inr (js ''pkg:npm/p@1'')"
  by code_simp

lemma example_purl_a: "purl (name (pkg ''a'' ''2'' '''')) (version (pkg ''a'' ''2'' '''')) = Inr (js ''pkg:npm/a@2'')"
  by code_simp

text \<open>
  Claim C4. \<open>toSBOM\<close> returns a document whenever every package URL can be built, and
  in every document it returns there are as many components as dependencies, one per
  package and in the order of the packages given: the \<open>i\<close>-th dependency refers to the
  \<^verbatim>\<open>bom-ref\<close> of the \<open>i\<close>-th component, which carries the name, the version and the
  package URL of the \<open>i\<close>-th package.
\<close>

theorem toSBOM_components_dependencies:
  "((\<forall>p \<in> set pkgs. \<exists>u. purl (name p) (version p) = Inr u) \<longrightarrow>
      (\<exists>doc. toSBOM uuid now pkgs = Inr doc)) \<and>
   (\<forall>doc. toSBOM uuid now pkgs = Inr doc \<longrightarrow>
      length (components doc) = length (dependencies doc) \<and>
      length (components doc) = length pkgs \<and>
      (\<forall>i < length pkgs.
         ref (dependencies doc ! i) = bom_ref (components doc ! i) \<and>
         comp_name (components doc ! i) = name (pkgs ! i) \<and>
         comp_version (components doc ! i) = version (pkgs ! i) \<and>
         purl (name (pkgs ! i)) (version (pkgs ! i)) = Inr (bom_ref (components doc ! i))))"
proof (rule conjI)
  show "(\<forall>p \<in> set pkgs. \<exists>u. purl (name p) (version p) = Inr u) \<longrightarrow>
      (\<exists>doc. toSBOM uuid now pkgs = Inr doc)"
    unfolding toSBOM_def using forEach_total by blast
  show "\<forall>doc. toSBOM uuid now pkgs = Inr doc \<longrightarrow>
      length (components doc) = length (dependencies doc) \<and>
      length (components doc) = length pkgs \<and>
      (\<forall>i < length pkgs.
         ref (dependencies doc ! i) = bom_ref (components doc ! i) \<and>
         comp_name (components doc ! i) = name (pkgs ! i) \<and>
         comp_version (components doc ! i) = version (pkgs ! i) \<and>
         purl (name (pkgs ! i)) (version (pkgs ! i)) = Inr (bom_ref (components doc ! i)))"
    using toSBOM_Inr [of uuid now pkgs] by blast
qed

theorem toSBOM_components_dependencies_witness:
  "\<exists>doc. toSBOM (js ''u'') (js ''t'') [pkg ''p'' ''1'' ''first'', pkg ''a'' ''2'' ''''] = Inr doc \<and>
     length (components doc) = length (dependencies doc) \<and>
     ref (dependencies doc ! 1) = bom_ref (components doc ! 1) \<and>
     bom_ref (components doc ! 1) = js ''pkg:npm/a@2'' \<and>
     comp_name (components doc ! 0) = Str (js ''p'')"
proof -
  let ?ps = "[pkg ''p'' ''1'' ''first'', pkg ''a'' ''2'' '''']"
  note t = toSBOM_components_dependencies [of ?ps "js ''u''" "js ''t''"]
  have "\<forall>p \<in> set ?ps. \<exists>u. purl (name p) (version p) = Inr u"
    using example_purl_p example_purl_a by simp
  with t obtain doc where d: "toSBOM (js ''u'') (js ''t'') ?ps = Inr doc" by blast
  with t have l: "length (components doc) = length (dependencies doc)"
    and i: "\<forall>i < length ?ps.
         ref (dependencies doc ! i) = bom_ref (components doc ! i) \<and>
         comp_name (components doc ! i) = name (?ps ! i) \<and>
         comp_version (components doc ! i) = version (?ps ! i) \<and>
         purl (name (?ps ! i)) (version (?ps ! i)) = Inr (bom_ref (components doc ! i))"
    by blast+
  have "ref (dependencies doc ! 1) = bom_ref (components doc ! 1) \<and>
      purl (name (?ps ! 1)) (version (?ps ! 1)) = Inr (bom_ref (components doc ! 1))"
    using i [rule_format, of 1] by simp
  moreover have "comp_name (components doc ! 0) = name (?ps ! 0)"
    using i [rule_format, of 0] by simp
  ultimately have "ref (dependencies doc ! 1) = bom_ref (components doc ! 1) \<and>
     bom_ref (components doc ! 1) = js ''pkg:npm/a@2'' \<and>
     comp_name (components doc ! 0) = Str (js ''p'')"
    using example_purl_a by (simp add: pkg_def)
  with d l show ?thesis by blast
qed

text \<open>
  Claim C10. When no file resolves to a named package, the text of the dependency list is
  exactly one newline (not the empty string), and the SBOM document is produced with no
  component and no dependency.
\<close>

theorem on_done_nothing_resolved:
  assumes "\<forall>f \<in> set files. findPackage (finder f) = None"
  shows "fst (on_done finder uuid now files) = [0x0A] \<and>
         fst (on_done finder uuid now files) \<noteq> [] \<and>
         (\<exists>doc. snd (on_done finder uuid now files) = Inr doc \<and>
                components doc = [] \<and> dependencies doc = [])"
proof -
  have "collect finder files = []"
    unfolding collect_def using assms by (rule collect_unresolved)
  then show ?thesis
    by (simp add: on_done_def manifest_def sortedCoords_def object_keys_def object_values_def
        toSBOM_def)
qed

theorem on_done_nothing_resolved_witness:
  "fst (on_done example_finder (js ''u'') (js ''t'') [js ''d.js'']) = [0x0A] \<and>
   (\<exists>doc. snd (on_done example_finder (js ''u'') (js ''t'') [js ''d.js'']) = Inr doc \<and>
          components doc = [] \<and> dependencies doc = [])"
proof -
  have "\<forall>f \<in> set [js ''d.js'']. findPackage (example_finder f) = None"
    by (simp add: example_d)
  from on_done_nothing_resolved [OF this] show ?thesis by blast
qed

section \<open>Properties of the package URL\<close>

lemmas enc_eval = purl_def encodeURIComponent_def js_def jc_def uriUnescaped_def andThen_def
  pctEncode_def utf8Octets_def pctOctet_def hexDigit_def

lemma hex_cases:
  assumes "d < 16"
  shows "d = 0 \<or> d = 1 \<or> d = 2 \<or> d = 3 \<or> d = 4 \<or> d = 5 \<or> d = 6 \<or> d = 7 \<or> d = 8 \<or>
         d = 9 \<or> d = 10 \<or> d = 11 \<or> d = 12 \<or> d = 13 \<or> d = 14 \<or> d = (15::nat)"
  using assms by arith

lemma hexDigit_not_pct: "d < 16 \<Longrightarrow> hexDigit d \<noteq> jc CHR ''%''"
  using hex_cases [of d] by (auto simp: hexDigit_def js_def jc_def)

lemma hexDigit_2: "d < 16 \<Longrightarrow> hexDigit d = jc CHR ''2'' \<longleftrightarrow> d = 2"
  using hex_cases [of d] by (auto simp: hexDigit_def js_def jc_def)

lemma hexDigit_F: "d < 16 \<Longrightarrow> hexDigit d = jc CHR ''F'' \<longleftrightarrow> d = 15"
  using hex_cases [of d] by (auto simp: hexDigit_def js_def jc_def)

lemma replace_plain:
  "c \<noteq> jc CHR ''%'' \<Longrightarrow>
   js_replace (js ''%2F'') (js ''/'') (c # out) = c # js_replace (js ''%2F'') (js ''/'') out"
  by (simp add: js_def)

lemma replace_slash:
  "js_replace (js ''%2F'') (js ''/'') (pctOctet 0x2F @ out) = js ''/'' @ out"
  by (simp add: js_def pctOctet_def hexDigit_def jc_def)

lemma replace_octet:
  assumes "b < 256" and "b \<noteq> 0x2F"
  shows "js_replace (js ''%2F'') (js ''/'') (pctOctet b @ out) =
         pctOctet b @ js_replace (js ''%2F'') (js ''/'') out"
proof -
  have h: "b div 16 < 16" and l: "b mod 16 < 16" using assms(1) by auto
  have ne: "\<not> (b div 16 = 2 \<and> b mod 16 = 15)" using assms(2) by arith
  then have np: "\<not> prefix (js ''%2F'') (pctOctet b @ out)"
    using hexDigit_2 [OF h] hexDigit_F [OF l] by (auto simp: js_def pctOctet_def)
  have "js_replace (js ''%2F'') (js ''/'') (pctOctet b @ out) =
      jc CHR ''%'' # js_replace (js ''%2F'') (js ''/'') (hexDigit (b div 16) # hexDigit (b mod 16) # out)"
    using np by (simp add: pctOctet_def)
  also have "\<dots> = jc CHR ''%'' # hexDigit (b div 16) # hexDigit (b mod 16) #
      js_replace (js ''%2F'') (js ''/'') out"
    by (simp only: replace_plain [OF hexDigit_not_pct [OF h]]
        replace_plain [OF hexDigit_not_pct [OF l]])
  finally show ?thesis by (simp add: pctOctet_def)
qed

lemma replace_octets:
  "\<forall>b \<in> set bs. b < 256 \<and> b \<noteq> 0x2F \<Longrightarrow>
   js_replace (js ''%2F'') (js ''/'') (concat (map pctOctet bs) @ out) =
   concat (map pctOctet bs) @ js_replace (js ''%2F'') (js ''/'') out"
  by (induction bs) (simp_all add: replace_octet)

lemma utf8Octets_range:
  assumes "cp < 0x110000" and "cp \<noteq> 0x2F"
  shows "\<forall>b \<in> set (utf8Octets cp). b < 256 \<and> b \<noteq> 0x2F"
proof -
  have "cp div 64 < 32" if "cp < 0x800" using that by simp
  moreover have "cp div 4096 < 16" if "cp < 0x10000" using that by simp
  moreover have "cp div 262144 < 8" using assms(1) by simp
  moreover have "cp mod 64 < 64" "cp div 64 mod 64 < 64" "cp div 4096 mod 64 < 64" by simp_all
  ultimately show ?thesis using assms(2)
    by (auto simp: utf8Octets_def)
qed

lemma replace_pctEncode:
  assumes "cp < 0x110000" and "cp \<noteq> 0x2F"
  shows "js_replace (js ''%2F'') (js ''/'') (pctEncode cp @ out) =
         pctEncode cp @ js_replace (js ''%2F'') (js ''/'') out"
  unfolding pctEncode_def using utf8Octets_range [OF assms] by (rule replace_octets)

lemma pctEncode_slash: "pctEncode 0x2F = pctOctet 0x2F"
  by (simp add: pctEncode_def utf8Octets_def)

lemma unescaped_plain: "uriUnescaped c \<Longrightarrow> c \<noteq> jc CHR ''%'' \<and> c \<noteq> jc CHR ''/''"
  by (auto simp: uriUnescaped_def js_def jc_def)

lemma unat_slash: "unat c = 0x2F \<longleftrightarrow> c = jc CHR ''/''" for c :: jschar
proof
  assume "unat c = 0x2F"
  then have "of_nat (unat c) = (of_nat 0x2F :: jschar)" by simp
  then show "c = jc CHR ''/''" by (simp add: jc_def)
next
  assume "c = jc CHR ''/''"
  then show "unat c = 0x2F" by (simp add: jc_def)
qed

lemma unat_unit: "unat c < 0x110000" for c :: jschar
proof -
  have "unat c < 2 ^ LENGTH(16)" by (rule unsigned_less)
  then show ?thesis by simp
qed

lemma pair_range:
  fixes c d :: jschar
  assumes "\<not> (c < 0xD800 \<or> 0xDFFF < c)" "\<not> 0xDC00 \<le> c" "0xDC00 \<le> d \<and> d \<le> 0xDFFF"
  shows "0x10000 + (unat c - 0xD800) * 0x400 + (unat d - 0xDC00) < 0x110000 \<and>
         0x10000 + (unat c - 0xD800) * 0x400 + (unat d - 0xDC00) \<noteq> 0x2F"
proof -
  have "unat c < 0xDC00" using assms(2) by (simp add: word_le_nat_alt)
  moreover have "unat d \<le> 0xDFFF" using assms(3) by (simp add: word_le_nat_alt)
  ultimately show ?thesis by simp
qed

lemma Encode_no_slash:
  "jc CHR ''/'' \<notin> set s \<Longrightarrow>
   Encode (\<lambda>c. uriUnescaped c \<or> c = jc CHR ''/'') s = Encode uriUnescaped s"
proof (induction s rule: measure_induct_rule [of length])
  case (less s)
  show ?case
  proof (cases s)
    case Nil
    then show ?thesis by simp
  next
    case (Cons c cs)
    with less.prems have c: "c \<noteq> jc CHR ''/''" and cs: "jc CHR ''/'' \<notin> set cs" by auto
    have ih: "Encode (\<lambda>c. uriUnescaped c \<or> c = jc CHR ''/'') cs = Encode uriUnescaped cs"
      using less.IH [of cs] cs Cons by simp
    show ?thesis
    proof (cases cs)
      case Nil
      with Cons c show ?thesis by simp
    next
      case (Cons d ds)
      with cs have "jc CHR ''/'' \<notin> set ds" by simp
      then have "Encode (\<lambda>c. uriUnescaped c \<or> c = jc CHR ''/'') ds = Encode uriUnescaped ds"
        using less.IH [of ds] Cons \<open>s = c # cs\<close> by simp
      with ih c Cons \<open>s = c # cs\<close> show ?thesis by simp
    qed
  qed
qed

lemma andThen_replace_plain:
  "c \<noteq> jc CHR ''%'' \<Longrightarrow>
   replaced (andThen [c] r) =
   andThen [c] (replaced r)"
  by (cases r) (simp_all add: replaced_def andThen_def replace_plain del: js_replace.simps)

lemma andThen_replace_pct:
  "cp < 0x110000 \<Longrightarrow> cp \<noteq> 0x2F \<Longrightarrow>
   replaced (andThen (pctEncode cp) r) =
   andThen (pctEncode cp) (replaced r)"
  by (cases r) (simp_all add: replaced_def andThen_def replace_pctEncode del: js_replace.simps)

lemma andThen_replace_slash:
  "replaced (andThen (pctEncode 0x2F) r) =
   andThen (js ''/'') r"
  by (cases r) (simp_all add: replaced_def andThen_def pctEncode_slash replace_slash del: js_replace.simps)

lemma replace_encoded:
  "count_list s (jc CHR ''/'') \<le> 1 \<Longrightarrow>
   replaced (encodeURIComponent s) =
   Encode (\<lambda>c. uriUnescaped c \<or> c = jc CHR ''/'') s"
proof (induction s rule: measure_induct_rule [of length])
  case (less s)
  let ?R = "replaced"
  let ?U = "\<lambda>c. uriUnescaped c \<or> c = jc CHR ''/''"
  show ?case
  proof (cases s)
    case Nil
    then show ?thesis by (simp add: encodeURIComponent_def js_def replaced_def)
  next
    case (Cons c cs)
    show ?thesis
    proof (cases "c = jc CHR ''/''")
      case True
      with less.prems Cons have "jc CHR ''/'' \<notin> set cs"
        by (auto simp: count_list_0_iff split: if_splits)
      then have e: "Encode ?U cs = Encode uriUnescaped cs" by (rule Encode_no_slash)
      have u: "\<not> uriUnescaped c" using True unescaped_plain by blast
      have n: "c < 0xD800 \<or> 0xDFFF < c" using True by (simp add: jc_def)
      have "unat c = 0x2F" using True by (simp add: unat_slash)
      then have "encodeURIComponent s = andThen (pctEncode 0x2F) (Encode uriUnescaped cs)"
        using Cons u n by (simp add: encodeURIComponent_def replaced_def)
      moreover have "Encode ?U s = andThen (js ''/'') (Encode uriUnescaped cs)"
        using Cons True e by (simp add: js_def)
      ultimately show ?thesis by (simp add: andThen_replace_slash del: js_replace.simps)
    next
      case False
      with less.prems Cons have cnt: "count_list cs (jc CHR ''/'') \<le> 1" by simp
      have ih: "?R (encodeURIComponent cs) = Encode ?U cs"
        by (rule less.IH) (use cnt Cons in simp_all)
      show ?thesis
      proof (cases "uriUnescaped c")
        case True
        then have np: "c \<noteq> jc CHR ''%''" using unescaped_plain by blast
        have "?R (andThen [c] (encodeURIComponent cs)) = andThen [c] (Encode ?U cs)"
          by (simp only: andThen_replace_plain [OF np] ih)
        then show ?thesis using Cons True by (simp add: encodeURIComponent_def replaced_def)
      next
        case nu: False
        show ?thesis
        proof (cases "c < 0xD800 \<or> 0xDFFF < c")
          case True
          have ne: "unat c \<noteq> 0x2F" using False by (simp add: unat_slash)
          have "?R (andThen (pctEncode (unat c)) (encodeURIComponent cs)) =
              andThen (pctEncode (unat c)) (Encode ?U cs)"
            by (simp only: andThen_replace_pct [OF unat_unit ne] ih)
          then show ?thesis using Cons True nu False by (simp add: encodeURIComponent_def replaced_def)
        next
          case sur: False
          show ?thesis
          proof (cases "0xDC00 \<le> c")
            case True
            then show ?thesis using Cons sur nu False by (simp add: encodeURIComponent_def replaced_def)
          next
            case hi: False
            show ?thesis
            proof (cases cs)
              case Nil
              then show ?thesis using Cons sur nu False hi by (simp add: encodeURIComponent_def replaced_def)
            next
              case ds: (Cons d ds)
              show ?thesis
              proof (cases "0xDC00 \<le> d \<and> d \<le> 0xDFFF")
                case lo: True
                then have "d \<noteq> jc CHR ''/''" by (auto simp: jc_def)
                with cnt ds have cnt2: "count_list ds (jc CHR ''/'') \<le> 1" by simp
                have ih2: "?R (encodeURIComponent ds) = Encode ?U ds"
                  by (rule less.IH) (use cnt2 Cons ds in simp_all)
                let ?cp = "0x10000 + (unat c - 0xD800) * 0x400 + (unat d - 0xDC00)"
                have "?R (andThen (pctEncode ?cp) (encodeURIComponent ds)) =
                    andThen (pctEncode ?cp) (Encode ?U ds)"
                  by (simp only: andThen_replace_pct [OF pair_range [OF sur hi lo, THEN conjunct1]
                        pair_range [OF sur hi lo, THEN conjunct2]] ih2)
                then show ?thesis
                  using Cons ds sur nu False hi lo by (simp add: encodeURIComponent_def replaced_def)
              next
                case False
                then show ?thesis
                  using Cons ds sur nu hi \<open>c \<noteq> jc CHR ''/''\<close>
                  by (auto simp: encodeURIComponent_def replaced_def)
              qed
            qed
          qed
        qed
      qed
    qed
  qed
qed

lemma purl_replaced:
  "purl (Str n) (Str v) =
     (case replaced (encodeURIComponent n) of
        Inl e \<Rightarrow> Inl e
      | Inr en \<Rightarrow>
          (case encodeURIComponent v of
             Inl e \<Rightarrow> Inl e
           | Inr ev \<Rightarrow> Inr (js ''pkg:npm/'' @ en @ js ''@'' @ ev)))"
  by (simp add: purl_def replaced_def split: sum.splits)

lemma purl_left_pad:
  "purl (Str (js ''left-pad'')) (Str (js ''1.3.0'')) = Inr (js ''pkg:npm/left-pad@1.3.0'')"
  by (simp add: enc_eval)

lemma purl_scoped:
  "purl (Str (js ''@scope/pkg'')) (Str (js ''2.0.0'')) = Inr (js ''pkg:npm/%40scope/pkg@2.0.0'')"
  by (simp add: enc_eval)

text \<open>
  Claim C1, as amended. For a name with at most one slash, the package URL is
  \<^verbatim>\<open>"pkg:npm/"\<close>, the name percent-encoded with the slash preserved, \<^verbatim>\<open>"@"\<close> and the
  version percent-encoded, where the percent-encoding is that of \<^verbatim>\<open>encodeURIComponent\<close>
  (and fails as it does on an unpaired surrogate). In particular the package URL of
  \<^verbatim>\<open>left-pad\<close> at \<^verbatim>\<open>1.3.0\<close> is \<^verbatim>\<open>pkg:npm/left-pad@1.3.0\<close>, and that of
  \<^verbatim>\<open>@scope/pkg\<close> at \<^verbatim>\<open>2.0.0\<close> is \<^verbatim>\<open>pkg:npm/%40scope/pkg@2.0.0\<close>: the slash is
  unescaped and the at sign is percent-encoded.
\<close>

theorem purl_encoding:
  "(count_list n (jc CHR ''/'') \<le> 1 \<longrightarrow> purl (Str n) (Str v) = spec_purl n v) \<and>
   purl (Str (js ''left-pad'')) (Str (js ''1.3.0'')) = Inr (js ''pkg:npm/left-pad@1.3.0'') \<and>
   purl (Str (js ''@scope/pkg'')) (Str (js ''2.0.0'')) = Inr (js ''pkg:npm/%40scope/pkg@2.0.0'')"
  using replace_encoded [of n] purl_left_pad purl_scoped
  by (simp add: purl_replaced spec_purl_def spec_percentEncode_preserving_slash_def)

theorem purl_encoding_witness:
  "count_list (js ''@types/node'') (jc CHR ''/'') \<le> 1 \<and>
   purl (Str (js ''@types/node'')) (Str (js ''20.1.0'')) =
     spec_purl (js ''@types/node'') (js ''20.1.0'') \<and>
   spec_purl (js ''@types/node'') (js ''20.1.0'') = Inr (js ''pkg:npm/%40types/node@20.1.0'')"
proof -
  have c: "count_list (js ''@types/node'') (jc CHR ''/'') \<le> 1"
    by (simp add: js_def jc_def)
  have p: "purl (Str (js ''@types/node'')) (Str (js ''20.1.0'')) =
      Inr (js ''pkg:npm/%40types/node@20.1.0'')"
    by (simp add: enc_eval)
  from purl_encoding [of "js ''@types/node''" "js ''20.1.0''"] c
  have "purl (Str (js ''@types/node'')) (Str (js ''20.1.0'')) =
     spec_purl (js ''@types/node'') (js ''20.1.0'')" by blast
  with c p show ?thesis by simp
qed

text \<open>
  The claim as stated fails twice: the at sign of a scoped name is percent-encoded, so
  the package URL of \<^verbatim>\<open>@scope/pkg\<close> is not \<^verbatim>\<open>pkg:npm/@scope/pkg@2.0.0\<close>; and
  \<^verbatim>\<open>replace\<close> restores the first slash only, so a second slash stays encoded.
\<close>

theorem purl_encoding_counterexample:
  "purl (Str (js ''@scope/pkg'')) (Str (js ''2.0.0'')) \<noteq> Inr (js ''pkg:npm/@scope/pkg@2.0.0'') \<and>
   purl (Str (js ''a/b/c'')) (Str (js ''1'')) = Inr (js ''pkg:npm/a/b%2Fc@1'') \<and>
   spec_purl (js ''a/b/c'') (js ''1'') = Inr (js ''pkg:npm/a/b/c@1'')"
  by (simp add: enc_eval spec_purl_def spec_percentEncode_preserving_slash_def)

section \<open>Properties of the regular expressions\<close>

lemma scan_Bol: "0 < i \<Longrightarrow> scan (Cat Bol r) s i = None"
  by (induction s arbitrary: i) simp_all

lemma scan_Bol_0:
  "scan (Cat Bol r) s 0 =
     map_option (\<lambda>(s', j, cs). cs)
       (rmatch r (\<lambda>(s', i', cs'). Some (s', i', cs'(0 := Str (take i' s)))) (s, 0, \<lambda>n. Undefined))"
  by (cases s) (auto simp: scan_Bol split: option.splits)

lemma greedy_total: "(\<And>st'. k st' \<noteq> None) \<Longrightarrow> greedy c k st \<noteq> None"
  by (induction c k st rule: greedy.induct) (auto split: option.splits)

lemma greedy_max:
  "\<forall>x \<in> set w. cls_mem c x \<Longrightarrow> rest = [] \<or> \<not> cls_mem c (hd rest) \<Longrightarrow>
   k (rest, i + length w, cs) = Some r \<Longrightarrow> greedy c k (w @ rest, i, cs) = Some r"
proof (induction w arbitrary: i)
  case Nil
  then show ?case by (cases rest) auto
next
  case (Cons a w)
  from Cons.prems have "greedy c k (w @ rest, Suc i, cs) = Some r"
    by (intro Cons.IH) simp_all
  with Cons.prems show ?case by simp
qed

lemma greedy_None:
  "(\<And>j. j \<le> length (takeWhile (cls_mem c) s) \<Longrightarrow> k (drop j s, i + j, cs) = None) \<Longrightarrow>
   greedy c k (s, i, cs) = None"
proof (induction s arbitrary: i)
  case Nil
  from Nil [of 0] show ?case by simp
next
  case (Cons a s)
  have here: "k (a # s, i, cs) = None" using Cons.prems [of 0] by simp
  show ?case
  proof (cases "cls_mem c a")
    case True
    have "greedy c k (s, Suc i, cs) = None"
    proof (rule Cons.IH)
      fix j assume "j \<le> length (takeWhile (cls_mem c) s)"
      with True Cons.prems [of "Suc j"] show "k (drop j s, Suc i + j, cs) = None" by simp
    qed
    with True here show ?thesis by simp
  next
    case False
    with here show ?thesis by simp
  qed
qed

lemma lazy_skip:
  "\<forall>x \<in> set p. cls_mem c x \<Longrightarrow>
   (\<And>j. j < length p \<Longrightarrow> k (drop j (p @ t), i + j, cs) = None) \<Longrightarrow>
   lazy c k (p @ t, i, cs) = lazy c k (t, i + length p, cs)"
proof (induction p arbitrary: i)
  case Nil
  then show ?case by simp
next
  case (Cons a p)
  have here: "k (a # p @ t, i, cs) = None" using Cons.prems(2) [of 0] by simp
  have "lazy c k (p @ t, Suc i, cs) = lazy c k (t, Suc i + length p, cs)"
  proof (rule Cons.IH)
    show "\<forall>x \<in> set p. cls_mem c x" using Cons.prems(1) by simp
    fix j assume "j < length p"
    with Cons.prems(2) [of "Suc j"] show "k (drop j (p @ t), Suc i + j, cs) = None" by simp
  qed
  with here Cons.prems(1) show ?case by simp
qed

lemma lazy_here: "k (t, i, cs) = Some r \<Longrightarrow> lazy c k (t, i, cs) = Some r"
  by (cases t) simp_all

subsection \<open>toSBOMLicenses\<close>

lemma license_cls:
  "cls_mem (OneOf [(jc CHR ''A'', jc CHR ''Z''), (jc CHR ''a'', jc CHR ''z''),
                             (jc CHR ''0'', jc CHR ''9''), (jc CHR ''+'', jc CHR ''+''),
                             (jc CHR ''.'', jc CHR ''.'')]) c = idChar c"
  by (auto simp: inRanges_def idChar_def)

lemma license_re_matches:
  "regexp_exec license_re (Str s) \<noteq> None \<longleftrightarrow> s \<noteq> [] \<and> idChar (hd s)"
proof -
  let ?k = "\<lambda>(s', i', cs'). Some (s', i', cs'(0 := Str (take i' s)))"
  let ?c = "OneOf [(jc CHR ''A'', jc CHR ''Z''), (jc CHR ''a'', jc CHR ''z''),
                             (jc CHR ''0'', jc CHR ''9''), (jc CHR ''+'', jc CHR ''+''),
                             (jc CHR ''.'', jc CHR ''.'')]"
  have e: "regexp_exec license_re (Str s) =
      map_option (\<lambda>(s', j, cs). cs) (rmatch (Plus ?c) ?k (s, 0, \<lambda>n. Undefined))"
    by (simp add: regexp_exec_def license_re_def scan_Bol_0 del: scan.simps)
  have g: "greedy ?c ?k st \<noteq> None" for st
    by (rule greedy_total) (auto split: prod.splits)
  have "rmatch (Plus ?c) ?k (s, 0, \<lambda>n. Undefined) \<noteq> None \<longleftrightarrow> s \<noteq> [] \<and> idChar (hd s)"
  proof (cases s)
    case Nil
    then show ?thesis by simp
  next
    case (Cons x xs)
    then show ?thesis using g [of "(xs, Suc 0, \<lambda>n. Undefined)"]
      by (simp add: license_cls del: cls_mem.simps)
  qed
  then show ?thesis by (simp add: e)
qed

lemma leading_run:
  "(\<exists>r t. r \<noteq> [] \<and> (\<forall>c \<in> set r. P c) \<and> s = r @ t) \<longleftrightarrow> s \<noteq> [] \<and> P (hd s)"
proof
  assume "\<exists>r t. r \<noteq> [] \<and> (\<forall>c \<in> set r. P c) \<and> s = r @ t"
  then obtain r t where "r \<noteq> []" "\<forall>c \<in> set r. P c" "s = r @ t" by blast
  then show "s \<noteq> [] \<and> P (hd s)" by (cases r) auto
next
  assume a: "s \<noteq> [] \<and> P (hd s)"
  then have "[hd s] \<noteq> [] \<and> (\<forall>c \<in> set [hd s]. P c) \<and> s = [hd s] @ tl s" by simp
  then show "\<exists>r t. r \<noteq> [] \<and> (\<forall>c \<in> set r. P c) \<and> s = r @ t" by blast
qed

lemma toSBOMLicenses_classifies:
  "toSBOMLicenses (Str s) =
     [if \<exists>r t. r \<noteq> [] \<and> (\<forall>c \<in> set r. idChar c) \<and> s = r @ t
      then LicenseId (Str s) else Expression (Str s)]"
  using license_re_matches [of s]
  by (simp only: leading_run toSBOMLicenses_def split: option.splits) auto

text \<open>
  Claim C5. For every string, \<open>toSBOMLicenses\<close> returns one entry: the license
  identifier when the string begins with a non-empty run of letters, digits, \<^verbatim>\<open>+\<close> and
  \<^verbatim>\<open>.\<close>, and the expression otherwise. In particular \<^verbatim>\<open>MIT\<close> is an identifier and
  \<^verbatim>\<open>(MIT OR Apache-2.0)\<close> is an expression.
\<close>

theorem toSBOMLicenses_leading_run:
  "toSBOMLicenses (Str s) =
     [if \<exists>r t. r \<noteq> [] \<and> (\<forall>c \<in> set r. idChar c) \<and> s = r @ t
      then LicenseId (Str s) else Expression (Str s)] \<and>
   toSBOMLicenses (Str (js ''MIT'')) = [LicenseId (Str (js ''MIT''))] \<and>
   toSBOMLicenses (Str (js ''(MIT OR Apache-2.0)'')) =
     [Expression (Str (js ''(MIT OR Apache-2.0)''))]"
proof (intro conjI)
  show "toSBOMLicenses (Str s) =
     [if \<exists>r t. r \<noteq> [] \<and> (\<forall>c \<in> set r. idChar c) \<and> s = r @ t
      then LicenseId (Str s) else Expression (Str s)]"
    by (rule toSBOMLicenses_classifies)
  show "toSBOMLicenses (Str (js ''MIT'')) = [LicenseId (Str (js ''MIT''))]"
    unfolding toSBOMLicenses_classifies leading_run by (simp add: js_def jc_def idChar_def)
  show "toSBOMLicenses (Str (js ''(MIT OR Apache-2.0)'')) =
     [Expression (Str (js ''(MIT OR Apache-2.0)''))]"
    unfolding toSBOMLicenses_classifies leading_run by (simp add: js_def jc_def idChar_def)
qed

theorem toSBOMLicenses_leading_run_witness:
  "toSBOMLicenses (Str (js ''MIT OR Apache-2.0'')) = [LicenseId (Str (js ''MIT OR Apache-2.0''))] \<and>
   toSBOMLicenses (Str []) = [Expression (Str [])]"
proof -
  have a: "\<exists>r t. r \<noteq> [] \<and> (\<forall>c \<in> set r. idChar c) \<and> js ''MIT OR Apache-2.0'' = r @ t"
    unfolding leading_run by (simp add: js_def jc_def idChar_def)
  have b: "\<not> (\<exists>r t. r \<noteq> [] \<and> (\<forall>c \<in> set r. idChar c) \<and> [] = r @ t)"
    by simp
  from toSBOMLicenses_leading_run [of "js ''MIT OR Apache-2.0''"] a
  have "toSBOMLicenses (Str (js ''MIT OR Apache-2.0'')) = [LicenseId (Str (js ''MIT OR Apache-2.0''))]"
    by (simp only: if_True)
  moreover from toSBOMLicenses_leading_run [of "[]"] b
  have "toSBOMLicenses (Str []) = [Expression (Str [])]"
    by (simp only: if_False)
  ultimately show ?thesis by (rule conjI)
qed

subsection \<open>toSBOMAuthors\<close>

lemma two_lines_no_match: "Option.is_none (regexp_exec author_re (Str [0x61, 0x0A, 0x62]))"
  by code_simp

lemma not_ws [simp]: "\<not> whiteSpace (jc CHR ''<'')" "\<not> whiteSpace (jc CHR ''('')"
  by (simp_all add: whiteSpace_def jc_def)

lemma delim_neq [simp]: "jc CHR ''('' \<noteq> jc CHR ''<''"
  by (simp add: jc_def)

lemma email_match:
  assumes "jc CHR ''>'' \<notin> set e"
    and "k (rest, i + length e + 2, cs(2 := Str e)) = Some r"
  shows "rmatch email_re k (jc CHR ''<'' # e @ jc CHR ''>'' # rest, i, cs) = Some r"
proof -
  let ?c = "NoneOf [(jc CHR ''>'', jc CHR ''>'')]"
  let ?k = "\<lambda>(s', i', cs'). rmatch (Chr (jc CHR ''>'')) k
      (s', i', cs'(2 := Str (take (i' - Suc i) (e @ jc CHR ''>'' # rest))))"
  have "greedy ?c ?k (e @ jc CHR ''>'' # rest, Suc i, cs) = Some r"
  proof (rule greedy_max)
    show "\<forall>x \<in> set e. cls_mem ?c x"
      using assms(1) by (auto simp: inRanges_def)
    show "jc CHR ''>'' # rest = [] \<or> \<not> cls_mem ?c (hd (jc CHR ''>'' # rest))"
      by (simp add: inRanges_def)
    show "?k (jc CHR ''>'' # rest, Suc i + length e, cs) = Some r"
      using assms(2) by simp
  qed
  then show ?thesis
    by (simp add: email_re_def del: take_append)
qed

lemma email_fail: "s = [] \<or> hd s \<noteq> jc CHR ''<'' \<Longrightarrow> rmatch email_re k (s, i, cs) = None"
  by (cases s) (auto simp: email_re_def)

lemma url_match:
  assumes "jc CHR '')'' \<notin> set u"
    and "k (rest, i + length u + 2, cs(3 := Str u)) = Some r"
  shows "rmatch url_re k (jc CHR ''('' # u @ jc CHR '')'' # rest, i, cs) = Some r"
proof -
  let ?c = "NoneOf [(jc CHR '')'', jc CHR '')'')]"
  let ?k = "\<lambda>(s', i', cs'). rmatch (Chr (jc CHR '')'')) k
      (s', i', cs'(3 := Str (take (i' - Suc i) (u @ jc CHR '')'' # rest))))"
  have "greedy ?c ?k (u @ jc CHR '')'' # rest, Suc i, cs) = Some r"
  proof (rule greedy_max)
    show "\<forall>x \<in> set u. cls_mem ?c x"
      using assms(1) by (auto simp: inRanges_def)
    show "jc CHR '')'' # rest = [] \<or> \<not> cls_mem ?c (hd (jc CHR '')'' # rest))"
      by (simp add: inRanges_def)
    show "?k (jc CHR '')'' # rest, Suc i + length u, cs) = Some r"
      using assms(2) by simp
  qed
  then show ?thesis
    by (simp add: url_re_def del: take_append)
qed

lemma url_fail: "s = [] \<or> hd s \<noteq> jc CHR ''('' \<Longrightarrow> rmatch url_re k (s, i, cs) = None"
  by (cases s) (auto simp: url_re_def)

lemma url_tail:
  assumes "\<forall>u. uo = Some u \<longrightarrow> jc CHR '')'' \<notin> set u"
    and "k ([], i + length (url_part uo), with_group 3 uo cs) = Some r"
  shows "rmatch (Cat (Opt url_re) Eol) k (url_part uo, i, cs) = Some r"
proof (cases uo)
  case None
  with assms(2) show ?thesis
    by (simp add: url_part_def with_group_def url_fail)
next
  case (Some u)
  have "rmatch url_re (rmatch Eol k) (jc CHR ''('' # u @ jc CHR '')'' # [], i, cs) = Some r"
  proof (rule url_match)
    show "jc CHR '')'' \<notin> set u" using assms(1) Some by simp
    show "rmatch Eol k ([], i + length u + 2, cs(3 := Str u)) = Some r"
      using assms(2) Some by (simp add: url_part_def with_group_def)
  qed
  then show ?thesis
    using Some by (simp add: url_part_def)
qed

lemma url_part_head: "url_part uo = [] \<or> hd (url_part uo) = jc CHR ''(''"
  by (cases uo) (simp_all add: url_part_def)

lemma ws_url_tail:
  assumes "\<forall>x \<in> set w. whiteSpace x"
    and "\<forall>u. uo = Some u \<longrightarrow> jc CHR '')'' \<notin> set u"
    and "k ([], i + length w + length (url_part uo), with_group 3 uo cs) = Some r"
  shows "rmatch (Cat (Star Space) (Cat (Opt url_re) Eol)) k (w @ url_part uo, i, cs) = Some r"
proof -
  have "greedy Space (rmatch (Cat (Opt url_re) Eol) k) (w @ url_part uo, i, cs) = Some r"
  proof (rule greedy_max)
    show "\<forall>x \<in> set w. cls_mem Space x" using assms(1) by simp
    show "url_part uo = [] \<or> \<not> cls_mem Space (hd (url_part uo))"
      using url_part_head [of uo] by auto
    show "rmatch (Cat (Opt url_re) Eol) k (url_part uo, i + length w, cs) = Some r"
      using assms(2,3) by (rule url_tail)
  qed
  then show ?thesis by simp
qed

lemma tail_match:
  assumes "\<forall>x \<in> set w1. whiteSpace x" and "\<forall>x \<in> set w2. whiteSpace x"
    and "\<forall>e. eo = Some e \<longrightarrow> jc CHR ''>'' \<notin> set e"
    and "\<forall>u. uo = Some u \<longrightarrow> jc CHR '')'' \<notin> set u"
    and "k ([], i + length (w1 @ email_part eo @ w2 @ url_part uo),
            with_group 3 uo (with_group 2 eo cs)) = Some r"
  shows "rmatch tail_re k (w1 @ email_part eo @ w2 @ url_part uo, i, cs) = Some r"
proof (cases eo)
  case None
  let ?k2 = "rmatch (Cat (Star Space) (Cat (Opt url_re) Eol)) k"
  have "greedy Space (rmatch (Opt email_re) ?k2) ((w1 @ w2) @ url_part uo, i, cs) = Some r"
  proof (rule greedy_max)
    show "\<forall>x \<in> set (w1 @ w2). cls_mem Space x" using assms(1,2) by auto
    show "url_part uo = [] \<or> \<not> cls_mem Space (hd (url_part uo))"
      using url_part_head [of uo] by auto
    have "?k2 ([] @ url_part uo, i + length (w1 @ w2), cs) = Some r"
    proof (rule ws_url_tail)
      show "\<forall>x \<in> set []. whiteSpace x" by simp
      show "\<forall>u. uo = Some u \<longrightarrow> jc CHR '')'' \<notin> set u" by (rule assms(4))
      show "k ([], i + length (w1 @ w2) + length [] + length (url_part uo), with_group 3 uo cs) = Some r"
        using assms(5) None by (simp add: email_part_def with_group_def add.assoc)
    qed
    then show "rmatch (Opt email_re) ?k2 (url_part uo, i + length (w1 @ w2), cs) = Some r"
      using url_part_head [of uo] by (auto simp: email_fail)
  qed
  then show ?thesis
    using None by (simp add: tail_re_def email_part_def)
next
  case (Some e)
  let ?k2 = "rmatch (Cat (Star Space) (Cat (Opt url_re) Eol)) k"
  let ?rest = "jc CHR ''<'' # e @ jc CHR ''>'' # w2 @ url_part uo"
  have "greedy Space (rmatch (Opt email_re) ?k2) (w1 @ ?rest, i, cs) = Some r"
  proof (rule greedy_max)
    show "\<forall>x \<in> set w1. cls_mem Space x" using assms(1) by simp
    show "?rest = [] \<or> \<not> cls_mem Space (hd ?rest)" by simp
    have "rmatch email_re ?k2 (?rest, i + length w1, cs) = Some r"
    proof (rule email_match)
      show "jc CHR ''>'' \<notin> set e" using assms(3) Some by simp
      show "?k2 (w2 @ url_part uo, i + length w1 + length e + 2, cs(2 := Str e)) = Some r"
      proof (rule ws_url_tail)
        show "\<forall>x \<in> set w2. whiteSpace x" by (rule assms(2))
        show "\<forall>u. uo = Some u \<longrightarrow> jc CHR '')'' \<notin> set u" by (rule assms(4))
        show "k ([], i + length w1 + length e + 2 + length w2 + length (url_part uo),
            with_group 3 uo (cs(2 := Str e))) = Some r"
          using assms(5) Some by (simp add: email_part_def with_group_def add.assoc)
      qed
    qed
    then show "rmatch (Opt email_re) ?k2 (?rest, i + length w1, cs) = Some r" by simp
  qed
  then show ?thesis
    using Some by (simp add: tail_re_def email_part_def)
qed

lemma k2_blocked:
  assumes "\<forall>x \<in> set w. whiteSpace x" and "\<not> whiteSpace y" and "y \<noteq> jc CHR ''(''"
  shows "rmatch (Cat (Star Space) (Cat (Opt url_re) Eol)) k (w @ y # rest, i, cs) = None"
proof -
  have tw: "takeWhile (cls_mem Space) (w @ y # rest) = w"
    using assms(1,2) by (simp add: takeWhile_tail)
  have "greedy Space (rmatch (Cat (Opt url_re) Eol) k) (w @ y # rest, i, cs) = None"
  proof (rule greedy_None)
    fix j assume "j \<le> length (takeWhile (cls_mem Space) (w @ y # rest))"
    then have j: "j \<le> length w" by (simp only: tw)
    then have d: "drop j (w @ y # rest) = drop j w @ y # rest" by simp
    have "hd (drop j w @ y # rest) \<noteq> jc CHR ''(''"
    proof (cases "drop j w")
      case Nil
      then show ?thesis using assms(3) by simp
    next
      case (Cons a as)
      then have "a \<in> set w" by (metis in_set_dropD list.set_intros(1))
      with assms(1) have "whiteSpace a" by simp
      then have "a \<noteq> jc CHR ''(''" by auto
      with Cons show ?thesis by simp
    qed
    then have "rmatch url_re (rmatch Eol k) (drop j w @ y # rest, i + j, cs) = None"
      by (intro url_fail) simp
    then show "rmatch (Cat (Opt url_re) Eol) k (drop j (w @ y # rest), i + j, cs) = None"
      unfolding d by simp
  qed
  then show ?thesis by simp
qed

lemma tail_blocked:
  assumes "\<forall>x \<in> set w. whiteSpace x" and "\<not> whiteSpace y"
    and "y \<noteq> jc CHR ''<''" and "y \<noteq> jc CHR ''(''"
  shows "rmatch tail_re k (w @ y # rest, i, cs) = None"
proof -
  let ?k2 = "rmatch (Cat (Star Space) (Cat (Opt url_re) Eol)) k"
  have tw: "takeWhile (cls_mem Space) (w @ y # rest) = w"
    using assms(1,2) by (simp add: takeWhile_tail)
  have "greedy Space (rmatch (Opt email_re) ?k2) (w @ y # rest, i, cs) = None"
  proof (rule greedy_None)
    fix j assume "j \<le> length (takeWhile (cls_mem Space) (w @ y # rest))"
    then have j: "j \<le> length w" by (simp only: tw)
    then have d: "drop j (w @ y # rest) = drop j w @ y # rest" by simp
    have w': "\<forall>x \<in> set (drop j w). whiteSpace x"
      using assms(1) by (meson in_set_dropD)
    have "hd (drop j w @ y # rest) \<noteq> jc CHR ''<''"
    proof (cases "drop j w")
      case Nil
      then show ?thesis using assms(3) by simp
    next
      case (Cons a as)
      with w' have "whiteSpace a" by simp
      then have "a \<noteq> jc CHR ''<''" by auto
      with Cons show ?thesis by simp
    qed
    then have "rmatch email_re ?k2 (drop j w @ y # rest, i + j, cs) = None"
      by (intro email_fail) simp
    moreover have "?k2 (drop j w @ y # rest, i + j, cs) = None"
      using w' assms(2,4) by (rule k2_blocked)
    ultimately show "rmatch (Opt email_re) ?k2 (drop j (w @ y # rest), i + j, cs) = None"
      unfolding d by simp
  qed
  then show ?thesis by (simp add: tail_re_def)
qed

lemma name_suffix_blocked:
  assumes "\<forall>c \<in> set n. c \<noteq> jc CHR ''<'' \<and> c \<noteq> jc CHR ''(''"
    and "n = [] \<or> \<not> whiteSpace (last n)" and "j < length n"
  shows "rmatch tail_re k (drop j n @ t, i, cs) = None"
proof -
  let ?q = "drop j n"
  have q: "?q \<noteq> []" using assms(3) by simp
  then have "last ?q = last n" using assms(3) by simp
  with assms(2,3) have "\<not> whiteSpace (last ?q)" by auto
  with q have "\<exists>x \<in> set ?q. \<not> whiteSpace x" using last_in_set by blast
  then have d: "dropWhile whiteSpace ?q \<noteq> []" by simp
  define y where "y = hd (dropWhile whiteSpace ?q)"
  define w where "w = takeWhile whiteSpace ?q"
  define q' where "q' = tl (dropWhile whiteSpace ?q)"
  have split: "?q = w @ y # q'"
    using d by (simp add: w_def y_def q'_def)
  have y: "\<not> whiteSpace y" using d unfolding y_def by (rule hd_dropWhile)
  have "y \<in> set ?q" using split by simp
  then have "y \<in> set n" by (rule in_set_dropD)
  with assms(1) have y': "y \<noteq> jc CHR ''<''" "y \<noteq> jc CHR ''(''" by auto
  have w: "\<forall>x \<in> set w. whiteSpace x"
    unfolding w_def by (auto dest: set_takeWhileD)
  have "rmatch tail_re k (w @ y # (q' @ t), i, cs) = None"
    using w y y' by (rule tail_blocked)
  then show ?thesis by (simp add: split)
qed

lemma author_re_shorthand:
  assumes "\<forall>c \<in> set n. \<not> lineTerminator c \<and> c \<noteq> jc CHR ''<'' \<and> c \<noteq> jc CHR ''(''"
    and "n = [] \<or> \<not> whiteSpace (last n)"
    and "\<forall>x \<in> set w1. whiteSpace x" and "\<forall>x \<in> set w2. whiteSpace x"
    and "\<forall>e. eo = Some e \<longrightarrow> jc CHR ''>'' \<notin> set e"
    and "\<forall>u. uo = Some u \<longrightarrow> jc CHR '')'' \<notin> set u"
  shows "\<exists>vs. regexp_exec author_re (Str (n @ w1 @ email_part eo @ w2 @ url_part uo)) = Some vs \<and>
           vs 1 = Str n \<and> vs 2 = (case eo of None \<Rightarrow> Undefined | Some e \<Rightarrow> Str e)"
proof -
  let ?t = "w1 @ email_part eo @ w2 @ url_part uo"
  let ?s = "n @ ?t"
  let ?c0 = "\<lambda>n::nat. Undefined"
  let ?K0 = "\<lambda>(s', i', cs'). Some (s', i', cs'(0 := Str (take i' ?s)))"
  let ?K1 = "\<lambda>(s', i', cs'). rmatch tail_re ?K0 (s', i', cs'(1 := Str (take (i' - 0) ?s)))"
  let ?vs = "(with_group 3 uo (with_group 2 eo (?c0(1 := Str n))))(0 := Str ?s)"
  have e: "regexp_exec author_re (Str ?s) =
      map_option (\<lambda>(s', j, cs). cs) (lazy Dot ?K1 (?s, 0, ?c0))"
    by (simp add: regexp_exec_def author_re_def scan_Bol_0 del: scan.simps append_assoc)
  have skip: "lazy Dot ?K1 (n @ ?t, 0, ?c0) = lazy Dot ?K1 (?t, 0 + length n, ?c0)"
  proof (rule lazy_skip)
    show "\<forall>x \<in> set n. cls_mem Dot x" using assms(1) by simp
    fix j assume j: "j < length n"
    have "rmatch tail_re ?K0 (drop j n @ ?t, 0 + j, ?c0(1 := Str (take (0 + j - 0) ?s))) = None"
      using assms(1,2) j by (intro name_suffix_blocked) auto
    then show "?K1 (drop j (n @ ?t), 0 + j, ?c0) = None"
      using j by simp
  qed
  have "rmatch tail_re ?K0 (?t, 0 + length n, ?c0(1 := Str n)) = Some ([], length ?s, ?vs)"
  proof (rule tail_match)
    show "\<forall>x \<in> set w1. whiteSpace x" "\<forall>x \<in> set w2. whiteSpace x"
      "\<forall>e. eo = Some e \<longrightarrow> jc CHR ''>'' \<notin> set e"
      "\<forall>u. uo = Some u \<longrightarrow> jc CHR '')'' \<notin> set u" by (rule assms)+
    show "?K0 ([], 0 + length n + length ?t, with_group 3 uo (with_group 2 eo (?c0(1 := Str n)))) =
        Some ([], length ?s, ?vs)" by simp
  qed
  then have "?K1 (?t, 0 + length n, ?c0) = Some ([], length ?s, ?vs)" by simp
  then have "lazy Dot ?K1 (?t, 0 + length n, ?c0) = Some ([], length ?s, ?vs)"
    by (rule lazy_here)
  with skip have "regexp_exec author_re (Str ?s) = Some ?vs"
    by (simp only: e) simp
  moreover have "?vs 1 = Str n"
    by (simp add: with_group_def split: option.splits)
  moreover have "?vs 2 = (case eo of None \<Rightarrow> Undefined | Some e \<Rightarrow> Str e)"
    by (simp add: with_group_def split: option.splits)
  ultimately show ?thesis by blast
qed

lemma toSBOMAuthors_shorthand:
  assumes "\<forall>c \<in> set n. \<not> lineTerminator c \<and> c \<noteq> jc CHR ''<'' \<and> c \<noteq> jc CHR ''(''"
    and "n = [] \<or> \<not> whiteSpace (last n)"
    and "\<forall>x \<in> set w1. whiteSpace x" and "\<forall>x \<in> set w2. whiteSpace x"
    and "\<forall>e. eo = Some e \<longrightarrow> jc CHR ''>'' \<notin> set e"
    and "\<forall>u. uo = Some u \<longrightarrow> jc CHR '')'' \<notin> set u"
  shows "toSBOMAuthors (Str (n @ w1 @ email_part eo @ w2 @ url_part uo)) =
     Inr [\<lparr>author_name = Str n,
           author_email = (case eo of None \<Rightarrow> None
                           | Some e \<Rightarrow> if e = [] then None else Some (Str e))\<rparr>]"
proof -
  from author_re_shorthand [OF assms] obtain vs where
    "regexp_exec author_re (Str (n @ w1 @ email_part eo @ w2 @ url_part uo)) = Some vs"
    "vs 1 = Str n" "vs 2 = (case eo of None \<Rightarrow> Undefined | Some e \<Rightarrow> Str e)" by blast
  then show ?thesis
    by (simp add: toSBOMAuthors_def split: option.splits)
qed

lemma toSBOMAuthors_structured:
  "n \<noteq> [] \<Longrightarrow>
   toSBOMAuthors (Obj (Str n) em u) =
     Inr [\<lparr>author_name = Str n, author_email = (if ToBoolean em then Some em else None)\<rparr>]"
  by (simp add: toSBOMAuthors_def)

lemma jane_string:
  "js ''Jane Doe <jane@example.com> (https://example.com)'' =
     js ''Jane Doe'' @ js '' '' @ email_part (Some (js ''jane@example.com'')) @ js '' '' @
       url_part (Some (js ''https://example.com''))"
  by (simp add: js_def email_part_def url_part_def)

lemma toSBOMAuthors_jane:
  "toSBOMAuthors (Str (js ''Jane Doe <jane@example.com> (https://example.com)'')) =
     Inr [\<lparr>author_name = Str (js ''Jane Doe''),
           author_email = Some (Str (js ''jane@example.com''))\<rparr>]"
proof -
  have "toSBOMAuthors (Str (js ''Jane Doe'' @ js '' '' @ email_part (Some (js ''jane@example.com'')) @
      js '' '' @ url_part (Some (js ''https://example.com'')))) =
     Inr [\<lparr>author_name = Str (js ''Jane Doe''),
           author_email = (case Some (js ''jane@example.com'') of None \<Rightarrow> None
                           | Some e \<Rightarrow> if e = [] then None else Some (Str e))\<rparr>]"
    by (rule toSBOMAuthors_shorthand)
      (simp_all add: js_def jc_def lineTerminator_def whiteSpace_def)
  moreover have "js ''jane@example.com'' \<noteq> []" by (simp add: js_def)
  ultimately show ?thesis unfolding jane_string by simp
qed

text \<open>
  Claim C6, as amended. \<open>toSBOMAuthors\<close> returns one entry for every author value
  (a string or an object). For an object with a non-empty name the entry has that name,
  and the email exactly when the object's email is present and not the empty string; the
  URL is dropped. For a string made of a name (without line terminator, \<^verbatim>\<open><\<close> or
  \<^verbatim>\<open>(\<close>, and not ending in white space), white space, an optional email between
  \<^verbatim>\<open><\<close> and \<^verbatim>\<open>>\<close>, white space and an optional URL between parentheses, the entry
  has that name, and the email exactly when the email part is there and not empty; the URL
  is dropped. In particular the two examples of the claim hold.
\<close>

theorem toSBOMAuthors_cases:
  "(a \<noteq> Undefined \<longrightarrow> (\<exists>x. toSBOMAuthors a = Inr [x])) \<and>
   (n \<noteq> [] \<longrightarrow>
      toSBOMAuthors (Obj (Str n) em u) =
        Inr [\<lparr>author_name = Str n,
              author_email = (if ToBoolean em then Some em else None)\<rparr>]) \<and>
   ((\<forall>c \<in> set m. \<not> lineTerminator c \<and> c \<noteq> jc CHR ''<'' \<and> c \<noteq> jc CHR ''('') \<and>
    (m = [] \<or> \<not> whiteSpace (last m)) \<and>
    (\<forall>x \<in> set w1. whiteSpace x) \<and> (\<forall>x \<in> set w2. whiteSpace x) \<and>
    (\<forall>e. eo = Some e \<longrightarrow> jc CHR ''>'' \<notin> set e) \<and>
    (\<forall>u. uo = Some u \<longrightarrow> jc CHR '')'' \<notin> set u) \<longrightarrow>
      toSBOMAuthors (Str (m @ w1 @ email_part eo @ w2 @ url_part uo)) =
        Inr [\<lparr>author_name = Str m,
              author_email = (case eo of None \<Rightarrow> None
                              | Some e \<Rightarrow> if e = [] then None else Some (Str e))\<rparr>]) \<and>
   toSBOMAuthors (Str (js ''Jane Doe <jane@example.com> (https://example.com)'')) =
     Inr [\<lparr>author_name = Str (js ''Jane Doe''),
           author_email = Some (Str (js ''jane@example.com''))\<rparr>] \<and>
   toSBOMAuthors (Obj (Str (js ''Jane Doe'')) Undefined Undefined) =
     Inr [\<lparr>author_name = Str (js ''Jane Doe''), author_email = None\<rparr>]"
proof (intro conjI impI)
  assume "a \<noteq> Undefined"
  then show "\<exists>x. toSBOMAuthors a = Inr [x]" by (rule toSBOMAuthors_total)
next
  assume "n \<noteq> []"
  then show "toSBOMAuthors (Obj (Str n) em u) =
        Inr [\<lparr>author_name = Str n,
              author_email = (if ToBoolean em then Some em else None)\<rparr>]"
    by (rule toSBOMAuthors_structured)
next
  assume "(\<forall>c \<in> set m. \<not> lineTerminator c \<and> c \<noteq> jc CHR ''<'' \<and> c \<noteq> jc CHR ''('') \<and>
    (m = [] \<or> \<not> whiteSpace (last m)) \<and>
    (\<forall>x \<in> set w1. whiteSpace x) \<and> (\<forall>x \<in> set w2. whiteSpace x) \<and>
    (\<forall>e. eo = Some e \<longrightarrow> jc CHR ''>'' \<notin> set e) \<and>
    (\<forall>u. uo = Some u \<longrightarrow> jc CHR '')'' \<notin> set u)"
  then show "toSBOMAuthors (Str (m @ w1 @ email_part eo @ w2 @ url_part uo)) =
        Inr [\<lparr>author_name = Str m,
              author_email = (case eo of None \<Rightarrow> None
                              | Some e \<Rightarrow> if e = [] then None else Some (Str e))\<rparr>]"
    by (intro toSBOMAuthors_shorthand) blast+
next
  show "toSBOMAuthors (Str (js ''Jane Doe <jane@example.com> (https://example.com)'')) =
     Inr [\<lparr>author_name = Str (js ''Jane Doe''),
           author_email = Some (Str (js ''jane@example.com''))\<rparr>]"
    by (rule toSBOMAuthors_jane)
next
  show "toSBOMAuthors (Obj (Str (js ''Jane Doe'')) Undefined Undefined) =
     Inr [\<lparr>author_name = Str (js ''Jane Doe''), author_email = None\<rparr>]"
    by (simp add: toSBOMAuthors_structured js_def)
qed

theorem toSBOMAuthors_cases_witness:
  "toSBOMAuthors (Obj (Str (js ''Jane Doe'')) (Str (js ''jane@example.com'')) (Str (js ''https://example.com''))) =
     Inr [\<lparr>author_name = Str (js ''Jane Doe''),
           author_email = Some (Str (js ''jane@example.com''))\<rparr>] \<and>
   toSBOMAuthors (Str (js ''Jane Doe (https://example.com)'')) =
     Inr [\<lparr>author_name = Str (js ''Jane Doe''), author_email = None\<rparr>]"
proof -
  note t = toSBOMAuthors_cases [of "Str (js ''x'')" "js ''Jane Doe''" "Str (js ''jane@example.com'')"
      "Str (js ''https://example.com'')" "js ''Jane Doe''" "js '' ''" "[]" None
      "Some (js ''https://example.com'')"]
  have n: "js ''Jane Doe'' \<noteq> []" by (simp add: js_def)
  have h: "(\<forall>c \<in> set (js ''Jane Doe''). \<not> lineTerminator c \<and> c \<noteq> jc CHR ''<'' \<and> c \<noteq> jc CHR ''('') \<and>
    (js ''Jane Doe'' = [] \<or> \<not> whiteSpace (last (js ''Jane Doe''))) \<and>
    (\<forall>x \<in> set (js '' ''). whiteSpace x) \<and> (\<forall>x \<in> set []. whiteSpace x) \<and>
    (\<forall>e. None = Some e \<longrightarrow> jc CHR ''>'' \<notin> set e) \<and>
    (\<forall>u. Some (js ''https://example.com'') = Some u \<longrightarrow> jc CHR '')'' \<notin> set u)"
    by (simp add: js_def jc_def lineTerminator_def whiteSpace_def)
  have s: "js ''Jane Doe (https://example.com)'' =
      js ''Jane Doe'' @ js '' '' @ email_part None @ [] @ url_part (Some (js ''https://example.com''))"
    by (simp add: js_def email_part_def url_part_def)
  from t n have "toSBOMAuthors (Obj (Str (js ''Jane Doe'')) (Str (js ''jane@example.com'')) (Str (js ''https://example.com''))) =
     Inr [\<lparr>author_name = Str (js ''Jane Doe''),
           author_email = (if ToBoolean (Str (js ''jane@example.com'')) then Some (Str (js ''jane@example.com'')) else None)\<rparr>]"
    by blast
  moreover from t h have "toSBOMAuthors (Str (js ''Jane Doe'' @ js '' '' @ email_part None @ [] @ url_part (Some (js ''https://example.com'')))) =
     Inr [\<lparr>author_name = Str (js ''Jane Doe''), author_email = (case None of None \<Rightarrow> None
                              | Some e \<Rightarrow> if e = [] then None else Some (Str e))\<rparr>]"
    by blast
  ultimately show ?thesis by (simp add: s) (simp add: js_def)
qed

text \<open>
  The claim as stated fails for an email that is present and empty: an object whose email
  is the empty string gets no email, and in \<^verbatim>\<open>Jane <>\<close> the email group is captured
  (as the empty string) and no email is emitted.
\<close>

theorem toSBOMAuthors_cases_counterexample:
  "toSBOMAuthors (Obj (Str (js ''Jane Doe'')) (Str []) Undefined) =
     Inr [\<lparr>author_name = Str (js ''Jane Doe''), author_email = None\<rparr>] \<and>
   \<not> Option.is_none (regexp_exec author_re (Str (js ''Jane <>''))) \<and>
   the (regexp_exec author_re (Str (js ''Jane <>''))) 2 = Str [] \<and>
   toSBOMAuthors (Str (js ''Jane <>'')) =
     Inr [\<lparr>author_name = Str (js ''Jane''), author_email = None\<rparr>]"
  by code_simp

text \<open>
  Claim C9. For every string, \<open>toSBOMAuthors\<close> returns one entry (it has no failing
  branch on a string); when the string does not match the shorthand pattern, the entry
  has the whole string as its name and no email.
\<close>

theorem toSBOMAuthors_string_fallback:
  "(\<exists>a. toSBOMAuthors (Str s) = Inr [a]) \<and>
   (regexp_exec author_re (Str s) = None \<longrightarrow>
      toSBOMAuthors (Str s) = Inr [\<lparr>author_name = Str s, author_email = None\<rparr>])"
  using toSBOMAuthors_total [of "Str s"] by (simp add: toSBOMAuthors_def)

theorem toSBOMAuthors_string_fallback_witness:
  "regexp_exec author_re (Str [0x61, 0x0A, 0x62]) = None \<and>
   toSBOMAuthors (Str [0x61, 0x0A, 0x62]) =
     Inr [\<lparr>author_name = Str [0x61, 0x0A, 0x62], author_email = None\<rparr>]"
proof -
  have n: "regexp_exec author_re (Str [0x61, 0x0A, 0x62]) = None"
    using two_lines_no_match by (simp add: Option.is_none_def)
  with toSBOMAuthors_string_fallback [of "[0x61, 0x0A, 0x62]"] show ?thesis by blast
qed

end
